theory Spec2Isabelle
  imports Main "HOL-Library.AList"
begin

section \<open>The SSE client registry and broadcaster (src/sse.ts)\<close>

text \<open>
  The module keeps two process-wide maps, \<open>rooms\<close> (room name to the set of client
  identifiers) and \<open>clients\<close> (client identifier to the client object), and a counter
  for fresh identifiers. Client objects are shared by reference between the \<open>clients\<close>
  map and the callers that hold the handle returned by \<open>addClient\<close>, and every client
  refers to a stream controller owned by the HTTP layer. The embedding therefore has two
  stores: \<open>heap\<close> for client objects and \<open>sinks\<close> for controllers, both indexed by
  reference. A reference is the position of the object in its store; objects are never
  freed, as in JavaScript.

  A JavaScript \<open>Map\<close> is an association list in insertion order (\<open>Map.get\<close> is
  \<open>map_of\<close>), a JavaScript \<open>Set\<close> is a duplicate-free list in insertion order.
  Strings are kept as their UTF-8 bytes, so that \<open>TextEncoder.encode\<close> is the identity.
\<close>

subsection \<open>JavaScript containers\<close>

type_synonym ref = nat
type_synonym bytes = string

definition Map_get :: "('k \<times> 'v) list \<Rightarrow> 'k \<Rightarrow> 'v option" where
  "Map_get m k = map_of m k"

definition Map_has :: "('k \<times> 'v) list \<Rightarrow> 'k \<Rightarrow> bool" where
  "Map_has m k = (Map_get m k \<noteq> None)"

definition Map_set :: "'k \<Rightarrow> 'v \<Rightarrow> ('k \<times> 'v) list \<Rightarrow> ('k \<times> 'v) list" where
  "Map_set k v m = AList.update k v m"

definition Map_delete :: "'k \<Rightarrow> ('k \<times> 'v) list \<Rightarrow> ('k \<times> 'v) list" where
  "Map_delete k m = AList.delete k m"

definition Map_size :: "('k \<times> 'v) list \<Rightarrow> nat" where
  "Map_size m = length m"

definition Set_add :: "'a \<Rightarrow> 'a list \<Rightarrow> 'a list" where
  "Set_add x xs = (if x \<in> set xs then xs else xs @ [x])"

definition Set_delete :: "'a \<Rightarrow> 'a list \<Rightarrow> 'a list" where
  "Set_delete x xs = removeAll x xs"

definition Set_size :: "'a list \<Rightarrow> nat" where
  "Set_size xs = length xs"

subsection \<open>Number to string, JSON.stringify and TextEncoder\<close>

definition digit_char :: "nat \<Rightarrow> char" where
  "digit_char d = char_of (48 + d)"

text \<open>The decimal digits of a counter value, as the template literal prints a number.\<close>

fun decimal :: "nat \<Rightarrow> string" where
  "decimal n =
     (if 10 \<le> n then decimal (n div 10) @ [digit_char (n mod 10)] else [digit_char n])"

declare decimal.simps [simp del]

text \<open>
  Modelled from the spec: \<open>JSON.stringify\<close> belongs to the platform, not to the
  repository, and the wire format says of its result that it is "a single-line JSON
  encoding (no embedded raw newlines)". The code does nothing with a payload but hand it to
  \<open>JSON.stringify\<close>, so a JavaScript value is represented by the text that this call
  returns for it: a string without a line feed. \<open>JSON_stringify\<close> reads that text,
  \<open>JS_value\<close> is the value with a given text. Values for which the call throws (cyclic
  objects, BigInt) are outside the type.
\<close>

typedef js_value = "{text :: string. CHR 0x0A \<notin> set text}"
  morphisms JSON_stringify JS_value
  by (rule exI [of _ "[]"]) simp

text \<open>\<open>encoder.encode\<close>: strings are already their UTF-8 bytes.\<close>

definition encode :: "string \<Rightarrow> bytes" where
  "encode s = s"

subsection \<open>The transport sink\<close>

text \<open>
  Modelled from the spec: the Client Transport Sink is an external collaborator with the
  capability "write(bytes) gives ok or fails, close()". For the stream controller of
  src/sse.ts, \<open>enqueue\<close> appends the chunk to the stream's queue while the stream is
  readable and throws a TypeError once the stream is closed or errored; \<open>close\<close> throws on
  a stream that is no longer readable.
\<close>

datatype error = TypeError

record controller =
  readable :: bool
  queue :: "bytes list"

definition enqueue :: "controller \<Rightarrow> bytes \<Rightarrow> error + controller" where
  "enqueue c b = (if readable c then Inr (c\<lparr>queue := queue c @ [b]\<rparr>) else Inl TypeError)"

definition close :: "controller \<Rightarrow> error + controller" where
  "close c = (if readable c then Inr (c\<lparr>readable := False\<rparr>) else Inl TypeError)"

subsection \<open>Clients and the module state\<close>

record SSEClient =
  client_id :: string
  controller :: ref
  client_rooms :: "string list"
  connectedAt :: nat
  closed :: bool

record world =
  rooms :: "(string \<times> string list) list"
  clients :: "(string \<times> ref) list"
  clientIdCounter :: nat
  heap :: "SSEClient list"
  sinks :: "controller list"

definition empty_registry :: "controller list \<Rightarrow> world" where
  "empty_registry ss =
     \<lparr>rooms = [], clients = [], clientIdCounter = 0, heap = [], sinks = ss\<rparr>"

definition set_closed :: "ref \<Rightarrow> world \<Rightarrow> world" where
  "set_closed r s = s\<lparr>heap := (heap s)[r := (heap s ! r)\<lparr>closed := True\<rparr>]\<rparr>"

subsection \<open>buildRoomName\<close>

definition buildRoomName :: "string \<Rightarrow> string \<Rightarrow> string" where
  "buildRoomName shopId branchId = shopId @ '':'' @ branchId"

subsection \<open>addClient\<close>

text \<open>
  \<open>addClient(controller, roomName)\<close>; \<open>now\<close> is the value of \<open>Date.now()\<close>. The result is the
  reference of the new client object and the new state.
\<close>

definition addClient :: "ref \<Rightarrow> string \<Rightarrow> nat \<Rightarrow> world \<Rightarrow> ref \<times> world" where
  "addClient ctrl roomName now s =
     (let n = clientIdCounter s + 1;
          ident = ''client_'' @ decimal n;
          client = \<lparr>client_id = ident, controller = ctrl, client_rooms = [roomName],
                    connectedAt = now, closed = False\<rparr>;
          r = length (heap s);
          s1 = s\<lparr>clientIdCounter := n, heap := heap s @ [client],
                 clients := Map_set ident r (clients s)\<rparr>;
          s2 = (if \<not> Map_has (rooms s1) roomName
                then s1\<lparr>rooms := Map_set roomName [] (rooms s1)\<rparr> else s1);
          s3 = (case Map_get (rooms s2) roomName of
                  Some roomClients \<Rightarrow>
                    s2\<lparr>rooms := Map_set roomName (Set_add ident roomClients) (rooms s2)\<rparr>
                | None \<Rightarrow> s2)
      in (r, s3))"

subsection \<open>removeClient\<close>

definition remove_from_room ::
  "string \<Rightarrow> string \<Rightarrow> (string \<times> string list) list \<Rightarrow> (string \<times> string list) list" where
  "remove_from_room clientId room rs =
     (case Map_get rs room of
        None \<Rightarrow> rs
      | Some roomClients \<Rightarrow>
          (let roomClients' = Set_delete clientId roomClients;
               rs' = Map_set room roomClients' rs
           in if Set_size roomClients' = 0 then Map_delete room rs' else rs'))"

definition removeClient :: "string \<Rightarrow> world \<Rightarrow> world" where
  "removeClient clientId s =
     (case Map_get (clients s) clientId of
        None \<Rightarrow> s
      | Some r \<Rightarrow>
          (let s1 = set_closed r s;
               s2 = s1\<lparr>rooms := fold (remove_from_room clientId)
                                   (client_rooms (heap s1 ! r)) (rooms s1)\<rparr>
           in s2\<lparr>clients := Map_delete clientId (clients s2)\<rparr>))"

subsection \<open>writeSSE and sendEvent\<close>

definition writeSSE :: "ref \<Rightarrow> string \<Rightarrow> world \<Rightarrow> bool \<times> world" where
  "writeSSE r eventData s =
     (let client = heap s ! r in
      if closed client then (False, s)
      else (case enqueue (sinks s ! controller client) (encode eventData) of
              Inr c' \<Rightarrow> (True, s\<lparr>sinks := (sinks s)[controller client := c']\<rparr>)
            | Inl e \<Rightarrow> (False, set_closed r s)))"

definition sse_frame :: "string \<Rightarrow> string \<Rightarrow> string" where
  "sse_frame event body =
     ''event: '' @ event @ [CHR 0x0A] @ ''data: '' @ body @ [CHR 0x0A, CHR 0x0A]"

definition sendEvent :: "ref \<Rightarrow> string \<Rightarrow> js_value \<Rightarrow> world \<Rightarrow> bool \<times> world" where
  "sendEvent r event data s = writeSSE r (sse_frame event (JSON_stringify data)) s"

subsection \<open>broadcast\<close>

fun broadcast_loop :: "bytes \<Rightarrow> string list \<Rightarrow> nat \<Rightarrow> world \<Rightarrow> nat \<times> world" where
  "broadcast_loop eventBytes [] sentCount s = (sentCount, s)"
| "broadcast_loop eventBytes (clientId # rest) sentCount s =
     (case Map_get (clients s) clientId of
        None \<Rightarrow> broadcast_loop eventBytes rest sentCount s
      | Some r \<Rightarrow>
          (let client = heap s ! r in
           if closed client then broadcast_loop eventBytes rest sentCount s
           else (case enqueue (sinks s ! controller client) eventBytes of
                   Inr c' \<Rightarrow>
                     broadcast_loop eventBytes rest (sentCount + 1)
                       (s\<lparr>sinks := (sinks s)[controller client := c']\<rparr>)
                 | Inl e \<Rightarrow> broadcast_loop eventBytes rest sentCount (set_closed r s))))"

definition broadcast :: "string \<Rightarrow> js_value \<Rightarrow> world \<Rightarrow> nat \<times> world" where
  "broadcast roomName payload s =
     (case Map_get (rooms s) roomName of
        None \<Rightarrow> (0, s)
      | Some roomClients \<Rightarrow>
          (let eventBytes = encode (sse_frame ''entity-event'' (JSON_stringify payload))
           in broadcast_loop eventBytes roomClients 0 s))"

text \<open>
  The same function with its calls of \<open>JSON.stringify\<close> recorded: \<open>calls\<close> is the list of
  the values serialized so far, and every call of the serializer adds its argument. The
  loop gets the encoded bytes and never calls the serializer.
\<close>

definition JSON_stringify_logged :: "js_value \<Rightarrow> js_value list \<Rightarrow> string \<times> js_value list" where
  "JSON_stringify_logged v calls = (JSON_stringify v, calls @ [v])"

definition broadcast_logged ::
  "string \<Rightarrow> js_value \<Rightarrow> js_value list \<Rightarrow> world \<Rightarrow> (nat \<times> world) \<times> js_value list" where
  "broadcast_logged roomName payload calls s =
     (case Map_get (rooms s) roomName of
        None \<Rightarrow> ((0, s), calls)
      | Some roomClients \<Rightarrow>
          (case JSON_stringify_logged payload calls of
             (text, calls') \<Rightarrow>
               (let eventBytes = encode (sse_frame ''entity-event'' text)
                in (broadcast_loop eventBytes roomClients 0 s, calls'))))"

text \<open>
  One iteration of the loop of \<open>broadcast\<close>, on the pair of \<open>sentCount\<close> and the state;
  the loop is the iteration of this step over the members (lemma \<open>broadcast_loop_fold\<close>).
\<close>

definition deliver :: "bytes \<Rightarrow> string \<Rightarrow> nat \<times> world \<Rightarrow> nat \<times> world" where
  "deliver eventBytes clientId st =
     (case Map_get (clients (snd st)) clientId of
        None \<Rightarrow> st
      | Some r \<Rightarrow>
          (let client = heap (snd st) ! r in
           if closed client then st
           else (case enqueue (sinks (snd st) ! controller client) eventBytes of
                   Inr c' \<Rightarrow>
                     (fst st + 1, (snd st)\<lparr>sinks := (sinks (snd st))[controller client := c']\<rparr>)
                 | Inl e \<Rightarrow> (fst st, set_closed r (snd st)))))"

subsection \<open>closeAllClients and the counters\<close>

definition close_client :: "ref \<Rightarrow> world \<Rightarrow> world" where
  "close_client r s =
     (let s1 = set_closed r s;
          k = controller (heap s1 ! r)
      in case close (sinks s1 ! k) of
           Inr c' \<Rightarrow> s1\<lparr>sinks := (sinks s1)[k := c']\<rparr>
         | Inl e \<Rightarrow> s1)"

definition closeAllClients :: "world \<Rightarrow> world" where
  "closeAllClients s =
     (let s1 = fold (\<lambda>entry. close_client (snd entry)) (clients s) s
      in s1\<lparr>clients := [], rooms := [], clientIdCounter := 0\<rparr>)"

definition getClientCount :: "world \<Rightarrow> nat" where
  "getClientCount s = Map_size (clients s)"

definition getRoomClientCount :: "string \<Rightarrow> world \<Rightarrow> nat" where
  "getRoomClientCount roomName s =
     (case Map_get (rooms s) roomName of Some roomClients \<Rightarrow> Set_size roomClients | None \<Rightarrow> 0)"

subsection \<open>Calls and reachable states\<close>

datatype call =
    AddClient ref string nat
  | RemoveClient string
  | SendEvent ref string js_value
  | Broadcast string js_value
  | CloseAllClients

fun run :: "call \<Rightarrow> world \<Rightarrow> world" where
  "run (AddClient ctrl roomName now) s = snd (addClient ctrl roomName now s)"
| "run (RemoveClient clientId) s = removeClient clientId s"
| "run (SendEvent r event data) s = snd (sendEvent r event data s)"
| "run (Broadcast roomName payload) s = snd (broadcast roomName payload s)"
| "run CloseAllClients s = closeAllClients s"

text \<open>
  A caller can only pass a controller that exists and a client handle that \<open>addClient\<close>
  returned earlier.
\<close>

fun valid_call :: "call \<Rightarrow> world \<Rightarrow> bool" where
  "valid_call (AddClient ctrl roomName now) s = (ctrl < length (sinks s))"
| "valid_call (SendEvent r event data) s = (r < length (heap s))"
| "valid_call (RemoveClient clientId) s = True"
| "valid_call (Broadcast roomName payload) s = True"
| "valid_call CloseAllClients s = True"

text \<open>
  The states of the module: it starts with both maps empty, every call of an exported
  function is a step, and between two calls the HTTP layer may create controllers and
  change the state of the existing ones (a connection drops, a reader drains a queue).
\<close>

inductive reachable :: "world \<Rightarrow> bool" where
  init: "reachable (empty_registry ss)"
| step: "reachable s \<Longrightarrow> valid_call c s \<Longrightarrow> reachable (run c s)"
| transport: "reachable s \<Longrightarrow> length (sinks s) \<le> length ss \<Longrightarrow> reachable (s\<lparr>sinks := ss\<rparr>)"

text \<open>
  What can happen after a state: calls of the exported functions and changes of the sinks
  by the HTTP layer, in any order.
\<close>

inductive later :: "world \<Rightarrow> world \<Rightarrow> bool" where
  now: "later s s"
| call: "later s s' \<Longrightarrow> valid_call c s' \<Longrightarrow> later s (run c s')"
| transport: "later s s' \<Longrightarrow> length (sinks s') \<le> length ss \<Longrightarrow> later s (s'\<lparr>sinks := ss\<rparr>)"

subsection \<open>Notions used in the statements\<close>

text \<open>The controller of the client registered under an identifier.\<close>

definition member_sink :: "world \<Rightarrow> string \<Rightarrow> ref option" where
  "member_sink s clientId = map_option (\<lambda>r. controller (heap s ! r)) (Map_get (clients s) clientId)"

text \<open>A member a broadcast delivers to: registered, not closed, and its sink accepts a write.\<close>

definition live_member :: "world \<Rightarrow> string \<Rightarrow> bool" where
  "live_member s clientId =
     (case Map_get (clients s) clientId of
        None \<Rightarrow> False
      | Some r \<Rightarrow> \<not> closed (heap s ! r) \<and> readable (sinks s ! controller (heap s ! r)))"

text \<open>The invariant of the registry that the reachable states keep.\<close>

definition ids_issued :: "world \<Rightarrow> bool" where
  "ids_issued s =
     (\<forall>cid \<in> fst ` set (clients s).
        \<exists>k. 0 < k \<and> k \<le> clientIdCounter s \<and> cid = ''client_'' @ decimal k)"

definition refs_allocated :: "world \<Rightarrow> bool" where
  "refs_allocated s = (\<forall>r \<in> snd ` set (clients s). r < length (heap s))"

definition membership_consistent :: "world \<Rightarrow> bool" where
  "membership_consistent s =
     (\<forall>roomName cid.
        (\<exists>members. Map_get (rooms s) roomName = Some members \<and> cid \<in> set members)
        \<longleftrightarrow> (\<exists>r. Map_get (clients s) cid = Some r \<and> roomName \<in> set (client_rooms (heap s ! r))))"

definition no_empty_room :: "world \<Rightarrow> bool" where
  "no_empty_room s = (\<forall>roomName members. Map_get (rooms s) roomName = Some members \<longrightarrow> members \<noteq> [])"

definition containers_distinct :: "world \<Rightarrow> bool" where
  "containers_distinct s =
     (distinct (map fst (clients s)) \<and> distinct (map fst (rooms s))
      \<and> (\<forall>members \<in> snd ` set (rooms s). distinct members))"

definition rooms_distinct :: "(string \<times> string list) list \<Rightarrow> bool" where
  "rooms_distinct rs = (distinct (map fst rs) \<and> (\<forall>members \<in> snd ` set rs. distinct members))"

definition registry_inv :: "world \<Rightarrow> bool" where
  "registry_inv s =
     (ids_issued s \<and> refs_allocated s \<and> membership_consistent s \<and> no_empty_room s
      \<and> containers_distinct s)"

text \<open>The members of a room, none if the room has no entry (\<open>lookupRoomMembers\<close> of the design).\<close>

definition lookupRoomMembers :: "world \<Rightarrow> string \<Rightarrow> string list" where
  "lookupRoomMembers s roomName =
     (case Map_get (rooms s) roomName of None \<Rightarrow> [] | Some members \<Rightarrow> members)"

subsection \<open>The yielding broadcast\<close>

text \<open>
  The second variant of \<open>broadcast\<close> is the same loop, except that after every
  \<open>BATCH\<close>-th successful delivery it awaits a zero-delay timer. While the call is
  suspended there, other tasks run: calls of the exported functions, and the HTTP layer
  changing the sinks. What runs during the successive suspensions of one call is given by
  a schedule, one list of tasks for each suspension; when the schedule is used up,
  nothing runs at the remaining suspensions.
\<close>

definition BATCH :: nat where
  "BATCH = 500"

datatype task = Call call | Transport "controller list"

fun perform :: "task \<Rightarrow> world \<Rightarrow> world" where
  "perform (Call c) s = run c s"
| "perform (Transport ss) s = s\<lparr>sinks := ss\<rparr>"

text \<open>
  The \<open>for\<close>-\<open>of\<close> loop walks the entries of the Set object that the room index held for
  the room when the call started. An entry deleted from that object before the loop
  reaches it is not visited, an entry added to it is visited after the others. The
  object changes with the room as long as the room index holds it (\<open>attached\<close>); once the
  index has dropped it, because \<open>removeClient\<close> emptied the room or \<open>closeAllClients\<close>
  cleared the index, nothing changes it any more: \<open>closeAllClients\<close> leaves its entries
  in it, and a later registration for the room creates another object. \<open>rest\<close> is the
  list of the entries still to visit.
\<close>

fun interleave :: "string \<Rightarrow> task \<Rightarrow> bool \<times> string list \<times> world \<Rightarrow> bool \<times> string list \<times> world" where
  "interleave roomName (Call CloseAllClients) (attached, rest, s) =
     (False, rest, closeAllClients s)"
| "interleave roomName t (attached, rest, s) =
     (let s' = perform t s in
      if attached
      then (Map_has (rooms s') roomName,
            filter (\<lambda>x. x \<in> set (lookupRoomMembers s' roomName)) rest
              @ filter (\<lambda>x. x \<notin> set (lookupRoomMembers s roomName))
                  (lookupRoomMembers s' roomName),
            s')
      else (False, rest, s'))"

fun broadcast_loop_yielding ::
  "task list list \<Rightarrow> string \<Rightarrow> bytes \<Rightarrow> bool \<Rightarrow> string list \<Rightarrow> nat \<Rightarrow> world \<Rightarrow> nat \<times> world" where
  "broadcast_loop_yielding sched roomName eventBytes attached [] sentCount s = (sentCount, s)"
| "broadcast_loop_yielding sched roomName eventBytes attached (clientId # rest) sentCount s =
     (case Map_get (clients s) clientId of
        None \<Rightarrow> broadcast_loop_yielding sched roomName eventBytes attached rest sentCount s
      | Some r \<Rightarrow>
          (let client = heap s ! r in
           if closed client
           then broadcast_loop_yielding sched roomName eventBytes attached rest sentCount s
           else (case enqueue (sinks s ! controller client) eventBytes of
                   Inr c' \<Rightarrow>
                     (let s1 = s\<lparr>sinks := (sinks s)[controller client := c']\<rparr>;
                          sentCount' = sentCount + 1
                      in if sentCount' mod BATCH = 0
                         then (case sched of
                                 [] \<Rightarrow>
                                   broadcast_loop_yielding [] roomName eventBytes attached rest
                                     sentCount' s1
                               | tasks # sched' \<Rightarrow>
                                   (case fold (interleave roomName) tasks (attached, rest, s1) of
                                      (attached', rest', s2) \<Rightarrow>
                                        broadcast_loop_yielding sched' roomName eventBytes
                                          attached' rest' sentCount' s2))
                         else broadcast_loop_yielding sched roomName eventBytes attached rest
                                sentCount' s1)
                 | Inl e \<Rightarrow>
                     broadcast_loop_yielding sched roomName eventBytes attached rest sentCount
                       (set_closed r s))))"

definition broadcast_yielding ::
  "task list list \<Rightarrow> string \<Rightarrow> js_value \<Rightarrow> world \<Rightarrow> nat \<times> world" where
  "broadcast_yielding sched roomName payload s =
     (case Map_get (rooms s) roomName of
        None \<Rightarrow> (0, s)
      | Some roomClients \<Rightarrow>
          (let eventBytes = encode (sse_frame ''entity-event'' (JSON_stringify payload))
           in broadcast_loop_yielding sched roomName eventBytes True roomClients 0 s))"

subsection \<open>Example states\<close>

text \<open>
  Three connections register for the room \<open>s1:b1\<close>, one after the other; the sink of the
  second one rejects every write.
\<close>

definition open_sink :: controller where
  "open_sink = \<lparr>readable = True, queue = []\<rparr>"

definition shut_sink :: controller where
  "shut_sink = \<lparr>readable = False, queue = []\<rparr>"

definition one_client :: world where
  "one_client = run (AddClient 0 ''s1:b1'' 0) (empty_registry [open_sink, shut_sink, open_sink])"

definition two_clients :: world where
  "two_clients = run (AddClient 1 ''s1:b1'' 0) one_client"

definition three_clients :: world where
  "three_clients = run (AddClient 2 ''s1:b1'' 0) two_clients"

definition null_payload :: js_value where
  "null_payload = JS_value ''null''"

text \<open>
  A full room: \<open>crowd n\<close> is the state after \<open>n\<close> connections have registered for the room
  \<open>s1:b1\<close>, each with a sink of its own that accepts writes; \<open>crowd_id k\<close> is the
  identifier of the connection with the sink \<open>k\<close>.
\<close>

definition crowd_id :: "nat \<Rightarrow> string" where
  "crowd_id k = ''client_'' @ decimal (Suc k)"

definition crowd_client :: "nat \<Rightarrow> SSEClient" where
  "crowd_client k = \<lparr>client_id = crowd_id k, controller = k, client_rooms = [''s1:b1''],
     connectedAt = 0, closed = False\<rparr>"

primrec crowd :: "nat \<Rightarrow> world" where
  "crowd 0 = empty_registry (replicate 501 open_sink)"
| "crowd (Suc n) = run (AddClient n ''s1:b1'' 0) (crowd n)"

section \<open>Room names\<close>

lemma takeWhile_sep: "c \<notin> set xs \<Longrightarrow> takeWhile (\<lambda>x. x \<noteq> c) (xs @ c # ys) = xs"
  by (induction xs) auto

lemma sep_left_unique:
  assumes "xs @ c # ys = xs' @ c # ys'" "c \<notin> set xs" "c \<notin> set xs'"
  shows "xs = xs' \<and> ys = ys'"
proof -
  have "takeWhile (\<lambda>x. x \<noteq> c) (xs @ c # ys) = takeWhile (\<lambda>x. x \<noteq> c) (xs' @ c # ys')"
    using assms(1) by simp
  then have "xs = xs'" using assms(2,3) by (simp add: takeWhile_sep)
  with assms(1) show ?thesis by simp
qed

lemma sep_right_unique:
  assumes "xs @ c # ys = xs' @ c # ys'" "c \<notin> set ys" "c \<notin> set ys'"
  shows "xs = xs' \<and> ys = ys'"
proof -
  have "rev (xs @ c # ys) = rev (xs' @ c # ys')" using assms(1) by simp
  then have "rev ys @ c # rev xs = rev ys' @ c # rev xs'" by simp
  then have "rev ys = rev ys' \<and> rev xs = rev xs'"
    by (rule sep_left_unique) (use assms(2,3) in auto)
  then show ?thesis by simp
qed

section \<open>Client identifiers are printed injectively\<close>

lemma digit_char_inj: "a < 10 \<Longrightarrow> b < 10 \<Longrightarrow> digit_char a = digit_char b \<Longrightarrow> a = b"
proof -
  assume a: "a < 10" and b: "b < 10" and e: "digit_char a = digit_char b"
  have "(of_char (digit_char a) :: nat) = of_char (digit_char b)" using e by simp
  then have "(48 + a) mod 256 = (48 + b) mod 256" by (simp add: digit_char_def)
  with a b show "a = b" by simp
qed

lemma decimal_small: "n < 10 \<Longrightarrow> decimal n = [digit_char n]"
  by (subst decimal.simps) simp

lemma decimal_large: "10 \<le> n \<Longrightarrow> decimal n = decimal (n div 10) @ [digit_char (n mod 10)]"
  by (subst decimal.simps) simp

lemma decimal_nonempty: "decimal n \<noteq> []"
  by (subst decimal.simps) simp

lemma decimal_inj: "decimal n = decimal m \<Longrightarrow> n = m"
proof (induction n arbitrary: m rule: decimal.induct)
  case (1 n)
  show ?case
  proof (cases "10 \<le> n")
    case small_n: False
    show ?thesis
    proof (cases "10 \<le> m")
      case False
      with small_n "1.prems" have "digit_char n = digit_char m"
        by (simp add: decimal_small)
      with small_n False show ?thesis
        using digit_char_inj [of n m] by simp
    next
      case True
      with small_n "1.prems" decimal_nonempty [of "m div 10"] show ?thesis
        by (simp add: decimal_small decimal_large)
    qed
  next
    case large_n: True
    show ?thesis
    proof (cases "10 \<le> m")
      case False
      with large_n "1.prems" decimal_nonempty [of "n div 10"] show ?thesis
        by (simp add: decimal_small decimal_large)
    next
      case True
      with large_n "1.prems" have e: "decimal (n div 10) = decimal (m div 10)"
        and d: "digit_char (n mod 10) = digit_char (m mod 10)"
        by (simp_all add: decimal_large)
      from "1.IH" [OF large_n e] have q: "n div 10 = m div 10" .
      from d have r: "n mod 10 = m mod 10"
        using digit_char_inj [of "n mod 10" "m mod 10"] by simp
      from q r show ?thesis by (metis div_mult_mod_eq)
    qed
  qed
qed

section \<open>One delivery\<close>

lemmas js_defs = Map_get_def Map_has_def Map_set_def Map_delete_def Map_size_def
  Set_add_def Set_delete_def Set_size_def

lemma set_closed_fields [simp]:
  "rooms (set_closed r s) = rooms s"
  "clients (set_closed r s) = clients s"
  "clientIdCounter (set_closed r s) = clientIdCounter s"
  "sinks (set_closed r s) = sinks s"
  "length (heap (set_closed r s)) = length (heap s)"
  by (simp_all add: set_closed_def)

lemma nth_list_update_total:
  "xs[i := x] ! j = (if i = j \<and> i < length xs then x else xs ! j)"
  by (cases "i < length xs") (simp_all add: nth_list_update list_update_beyond)

lemma set_closed_nth [simp]:
  "controller (heap (set_closed r s) ! r') = controller (heap s ! r')"
  "client_rooms (heap (set_closed r s) ! r') = client_rooms (heap s ! r')"
  "client_id (heap (set_closed r s) ! r') = client_id (heap s ! r')"
  "connectedAt (heap (set_closed r s) ! r') = connectedAt (heap s ! r')"
  "closed (heap (set_closed r s) ! r') \<longleftrightarrow> closed (heap s ! r') \<or> (r' = r \<and> r < length (heap s))"
  by (auto simp add: set_closed_def nth_list_update_total)

lemma enqueue_Inr: "enqueue c b = Inr c' \<longleftrightarrow> readable c \<and> c' = c\<lparr>queue := queue c @ [b]\<rparr>"
  by (auto simp: enqueue_def)

lemma enqueue_Inl: "enqueue c b = Inl e \<longleftrightarrow> \<not> readable c"
  by (cases e) (auto simp: enqueue_def)

lemma broadcast_loop_fold: "broadcast_loop b ms n s = fold (deliver b) ms (n, s)"
  by (induction ms arbitrary: n s) (simp_all add: deliver_def Let_def split: option.splits sum.splits)

lemma nth_upd_readable:
  "readable ((cs[k := (cs ! k)\<lparr>queue := q\<rparr>]) ! k') = readable (cs ! k')"
  by (simp add: nth_list_update_total)

lemma deliver_registry:
  "rooms (snd (deliver b cid st)) = rooms (snd st)"
  "clients (snd (deliver b cid st)) = clients (snd st)"
  "clientIdCounter (snd (deliver b cid st)) = clientIdCounter (snd st)"
  "length (heap (snd (deliver b cid st))) = length (heap (snd st))"
  "length (sinks (snd (deliver b cid st))) = length (sinks (snd st))"
  by (simp_all add: deliver_def Let_def enqueue_def split: option.splits)

lemma deliver_client_fields:
  "controller (heap (snd (deliver b cid st)) ! r) = controller (heap (snd st) ! r)"
  "client_rooms (heap (snd (deliver b cid st)) ! r) = client_rooms (heap (snd st) ! r)"
  "client_id (heap (snd (deliver b cid st)) ! r) = client_id (heap (snd st) ! r)"
  "connectedAt (heap (snd (deliver b cid st)) ! r) = connectedAt (heap (snd st) ! r)"
  by (simp_all add: deliver_def Let_def enqueue_def split: option.splits)

lemma deliver_readable:
  "readable (sinks (snd (deliver b cid st)) ! k) = readable (sinks (snd st) ! k)"
  by (simp add: deliver_def Let_def enqueue_def nth_upd_readable split: option.splits)

lemma deliver_closed:
  "closed (heap (snd (deliver b cid st)) ! r) \<longleftrightarrow>
     closed (heap (snd st) ! r)
     \<or> (r < length (heap (snd st)) \<and> Map_get (clients (snd st)) cid = Some r
        \<and> \<not> readable (sinks (snd st) ! controller (heap (snd st) ! r)))"
  by (auto simp: deliver_def Let_def enqueue_def split: option.splits)

lemma deliver_live: "live_member (snd (deliver b cid st)) = live_member (snd st)"
proof
  fix x
  show "live_member (snd (deliver b cid st)) x = live_member (snd st) x"
    unfolding live_member_def
    by (auto simp: deliver_registry deliver_client_fields deliver_readable deliver_closed
        split: option.splits)
qed

lemma deliver_member_sink: "member_sink (snd (deliver b cid st)) = member_sink (snd st)"
  by (rule ext) (simp add: member_sink_def deliver_registry deliver_client_fields)

lemma deliver_count:
  "fst (deliver b cid st) = fst st + (if live_member (snd st) cid then 1 else 0)"
  by (auto simp: deliver_def live_member_def Let_def enqueue_def split: option.splits)

lemma deliver_queue:
  "k < length (sinks (snd st)) \<Longrightarrow>
   queue (sinks (snd (deliver b cid st)) ! k) =
     queue (sinks (snd st) ! k) @
       (if live_member (snd st) cid \<and> member_sink (snd st) cid = Some k then [b] else [])"
  by (auto simp: deliver_def live_member_def member_sink_def Let_def enqueue_def nth_list_update
      split: option.splits)

section \<open>The loop of broadcast\<close>

lemma loop_registry:
  "rooms (snd (fold (deliver b) ms st)) = rooms (snd st)"
  "clients (snd (fold (deliver b) ms st)) = clients (snd st)"
  "clientIdCounter (snd (fold (deliver b) ms st)) = clientIdCounter (snd st)"
  "length (heap (snd (fold (deliver b) ms st))) = length (heap (snd st))"
  "length (sinks (snd (fold (deliver b) ms st))) = length (sinks (snd st))"
  by (induction ms arbitrary: st; simp add: deliver_registry)+

lemma loop_client_fields:
  "controller (heap (snd (fold (deliver b) ms st)) ! r) = controller (heap (snd st) ! r)"
  "client_rooms (heap (snd (fold (deliver b) ms st)) ! r) = client_rooms (heap (snd st) ! r)"
  "client_id (heap (snd (fold (deliver b) ms st)) ! r) = client_id (heap (snd st) ! r)"
  "connectedAt (heap (snd (fold (deliver b) ms st)) ! r) = connectedAt (heap (snd st) ! r)"
  by (induction ms arbitrary: st; simp add: deliver_client_fields)+

lemma loop_readable:
  "readable (sinks (snd (fold (deliver b) ms st)) ! k) = readable (sinks (snd st) ! k)"
  by (induction ms arbitrary: st) (simp_all add: deliver_readable)

lemma loop_live: "live_member (snd (fold (deliver b) ms st)) = live_member (snd st)"
  by (induction ms arbitrary: st) (simp_all add: deliver_live)

lemma loop_member_sink: "member_sink (snd (fold (deliver b) ms st)) = member_sink (snd st)"
  by (induction ms arbitrary: st) (simp_all add: deliver_member_sink)

lemma loop_count:
  "fst (fold (deliver b) ms st) = fst st + length (filter (live_member (snd st)) ms)"
  by (induction ms arbitrary: st) (simp_all add: deliver_count deliver_live)

lemma loop_closed:
  "closed (heap (snd (fold (deliver b) ms st)) ! r) \<longleftrightarrow>
     closed (heap (snd st) ! r)
     \<or> (r < length (heap (snd st)) \<and> (\<exists>cid \<in> set ms. Map_get (clients (snd st)) cid = Some r)
        \<and> \<not> readable (sinks (snd st) ! controller (heap (snd st) ! r)))"
proof (induction ms arbitrary: st)
  case Nil
  show ?case by simp
next
  case (Cons m ms)
  show ?case
    by (simp add: Cons.IH deliver_registry deliver_client_fields deliver_readable deliver_closed)
      blast
qed

lemma loop_queue:
  "k < length (sinks (snd st)) \<Longrightarrow>
   queue (sinks (snd (fold (deliver b) ms st)) ! k) =
     queue (sinks (snd st) ! k) @
       replicate (length (filter (\<lambda>cid. live_member (snd st) cid \<and> member_sink (snd st) cid = Some k) ms)) b"
proof (induction ms arbitrary: st)
  case Nil
  show ?case by simp
next
  case (Cons m ms)
  have k: "k < length (sinks (snd (deliver b m st)))"
    using Cons.prems by (simp add: deliver_registry)
  show ?case
    using Cons.IH [OF k] Cons.prems
    by (simp add: deliver_queue deliver_live deliver_member_sink)
qed

section \<open>Broadcast\<close>

lemma broadcast_fold:
  "broadcast R p s =
     (case Map_get (rooms s) R of
        None \<Rightarrow> (0, s)
      | Some members \<Rightarrow>
          fold (deliver (sse_frame ''entity-event'' (JSON_stringify p))) members (0, s))"
  by (simp add: broadcast_def broadcast_loop_fold encode_def split: option.splits)

lemma JSON_stringify_no_newline: "CHR 0x0A \<notin> set (JSON_stringify v)"
  using JSON_stringify [of v] by simp

lemma JSON_stringify_null: "JSON_stringify null_payload = ''null''"
  by (simp add: null_payload_def JS_value_inverse)

lemma broadcast_logged_result: "fst (broadcast_logged R p calls s) = broadcast R p s"
  by (simp add: broadcast_logged_def broadcast_def JSON_stringify_logged_def
      split: option.splits)

lemma broadcast_logged_calls:
  "snd (broadcast_logged R p calls s) =
     (case Map_get (rooms s) R of None \<Rightarrow> calls | Some members \<Rightarrow> calls @ [p])"
  by (simp add: broadcast_logged_def JSON_stringify_logged_def split: option.splits)

lemma broadcast_registry:
  "rooms (snd (broadcast R p s)) = rooms s"
  "clients (snd (broadcast R p s)) = clients s"
  "clientIdCounter (snd (broadcast R p s)) = clientIdCounter s"
  "length (heap (snd (broadcast R p s))) = length (heap s)"
  "length (sinks (snd (broadcast R p s))) = length (sinks s)"
  by (simp_all add: broadcast_fold loop_registry split: option.splits)

lemma broadcast_closed:
  "closed (heap (snd (broadcast R p s)) ! r) \<longleftrightarrow>
     closed (heap s ! r)
     \<or> (r < length (heap s) \<and> \<not> readable (sinks s ! controller (heap s ! r))
        \<and> (\<exists>members cid. Map_get (rooms s) R = Some members \<and> cid \<in> set members
              \<and> Map_get (clients s) cid = Some r))"
  by (auto simp add: broadcast_fold loop_closed split: option.splits)

lemma writeSSE_registry:
  "rooms (snd (writeSSE r d s)) = rooms s"
  "clients (snd (writeSSE r d s)) = clients s"
  "clientIdCounter (snd (writeSSE r d s)) = clientIdCounter s"
  "length (heap (snd (writeSSE r d s))) = length (heap s)"
  "length (sinks (snd (writeSSE r d s))) = length (sinks s)"
  by (simp_all add: writeSSE_def Let_def enqueue_def)

lemma writeSSE_closed:
  "closed (heap (snd (writeSSE r d s)) ! r') \<longleftrightarrow>
     closed (heap s ! r')
     \<or> (r' = r \<and> r < length (heap s) \<and> \<not> readable (sinks s ! controller (heap s ! r)))"
  by (auto simp add: writeSSE_def Let_def enqueue_def)

lemma filter_length_two:
  assumes "distinct ms" "set ms = {a, b, c}" "a \<noteq> c" "P a" "\<not> P b" "P c"
  shows "length (filter P ms) = 2"
proof -
  have "set (filter P ms) = {a, c}" using assms by auto
  moreover have "distinct (filter P ms)" using assms(1) by simp
  ultimately have "length (filter P ms) = card {a, c}" by (metis distinct_card)
  with assms(3) show ?thesis by simp
qed

lemma sendEvent_closed_noop: "closed (heap s ! r) \<Longrightarrow> sendEvent r ev d s = (False, s)"
  by (simp add: sendEvent_def writeSSE_def)

lemma controller_eqI:
  "readable (c :: controller) = readable c' \<Longrightarrow> queue c = queue c' \<Longrightarrow> c = c'"
  by simp

lemma broadcast_sink_untouched:
  assumes k: "k < length (sinks s)"
    and skip: "\<And>cid r. Map_get (clients s) cid = Some r \<Longrightarrow> controller (heap s ! r) = k
                 \<Longrightarrow> closed (heap s ! r)"
  shows "sinks (snd (broadcast R p s)) ! k = sinks s ! k"
proof (cases "Map_get (rooms s) R")
  case None
  then show ?thesis by (simp add: broadcast_fold)
next
  case (Some members)
  have none: "filter (\<lambda>cid. live_member s cid \<and> member_sink s cid = Some k) members = []"
    using skip by (auto simp add: filter_empty_conv live_member_def member_sink_def split: option.splits)
  have "queue (sinks (snd (broadcast R p s)) ! k) = queue (sinks s ! k)"
    using Some k by (simp add: broadcast_fold loop_queue none)
  moreover have "readable (sinks (snd (broadcast R p s)) ! k) = readable (sinks s ! k)"
    using Some by (simp add: broadcast_fold loop_readable)
  ultimately show ?thesis by (intro controller_eqI)
qed

lemma addClient_heap: "heap (snd (addClient ctrl R now s)) =
    heap s @ [\<lparr>client_id = ''client_'' @ decimal (clientIdCounter s + 1), controller = ctrl,
               client_rooms = [R], connectedAt = now, closed = False\<rparr>]"
  by (simp add: addClient_def Let_def js_defs split: option.splits)

lemma removeClient_heap:
  "heap (removeClient cid s) =
     (case Map_get (clients s) cid of None \<Rightarrow> heap s | Some r \<Rightarrow> heap (set_closed r s))"
  by (simp add: removeClient_def Let_def split: option.splits)

lemma close_client_closed:
  "closed (heap (close_client r s) ! r') \<longleftrightarrow> closed (heap s ! r') \<or> (r' = r \<and> r < length (heap s))"
  by (simp add: close_client_def Let_def close_def)

lemma close_client_length: "length (heap (close_client r s)) = length (heap s)"
  by (simp add: close_client_def Let_def close_def)

lemma close_all_closed:
  "closed (heap s ! r') \<Longrightarrow> closed (heap (fold (\<lambda>entry. close_client (snd entry)) es s) ! r')"
  by (induction es arbitrary: s) (simp_all add: close_client_closed)

lemma run_closed_monotonic:
  assumes "r < length (heap s)" "closed (heap s ! r)"
  shows "closed (heap (run c s) ! r)"
proof (cases c)
  case (AddClient ctrl R now)
  with assms show ?thesis by (simp add: addClient_heap nth_append)
next
  case (RemoveClient cid)
  with assms show ?thesis by (simp add: removeClient_heap split: option.splits)
next
  case (SendEvent r' ev d)
  with assms show ?thesis by (simp add: sendEvent_def writeSSE_closed)
next
  case (Broadcast R p)
  with assms show ?thesis by (simp add: broadcast_closed)
next
  case CloseAllClients
  with assms show ?thesis by (simp add: closeAllClients_def Let_def close_all_closed)
qed

section \<open>The registry invariant\<close>

lemma update_fresh: "k \<notin> fst ` set al \<Longrightarrow> AList.update k v al = al @ [(k, v)]"
  by (induction al) auto

lemma update_values: "snd ` set (AList.update k v al) \<subseteq> insert v (snd ` set al)"
  by (induction al) auto

lemma delete_subset: "set (AList.delete k al) \<subseteq> set al"
  by (auto simp add: AList.delete_eq)

lemma addClient_eq:
  "snd (addClient ctrl R now s) =
     s\<lparr>clientIdCounter := clientIdCounter s + 1,
       heap := heap s @ [\<lparr>client_id = ''client_'' @ decimal (clientIdCounter s + 1),
                          controller = ctrl, client_rooms = [R], connectedAt = now,
                          closed = False\<rparr>],
       clients := AList.update (''client_'' @ decimal (clientIdCounter s + 1)) (length (heap s))
                    (clients s),
       rooms := AList.update R
                  (Set_add (''client_'' @ decimal (clientIdCounter s + 1))
                     (case map_of (rooms s) R of None \<Rightarrow> [] | Some members \<Rightarrow> members))
                  (rooms s)\<rparr>"
  by (simp add: addClient_def Let_def Map_get_def Map_has_def Map_set_def update_conv'
      split: option.splits)

lemma fresh_id:
  assumes "ids_issued s"
  shows "''client_'' @ decimal (clientIdCounter s + 1) \<notin> fst ` set (clients s)"
proof
  assume "''client_'' @ decimal (clientIdCounter s + 1) \<in> fst ` set (clients s)"
  with assms obtain k where k: "k \<le> clientIdCounter s"
    and "''client_'' @ decimal (clientIdCounter s + 1) = ''client_'' @ decimal k"
    unfolding ids_issued_def by blast
  then have "decimal (clientIdCounter s + 1) = decimal k" by simp
  then have "clientIdCounter s + 1 = k" by (rule decimal_inj)
  with k show False by simp
qed

lemma remove_from_room_get:
  "Map_get (remove_from_room cid R' rs) R =
     (if R = R'
      then (case Map_get rs R of
              None \<Rightarrow> None
            | Some members \<Rightarrow> if removeAll cid members = [] then None
                              else Some (removeAll cid members))
      else Map_get rs R)"
  by (simp add: remove_from_room_def js_defs Let_def update_conv' delete_conv'
      split: option.splits)

lemma fold_remove_get:
  "Map_get (fold (remove_from_room cid) Rs rs) R =
     (if R \<in> set Rs
      then (case Map_get rs R of
              None \<Rightarrow> None
            | Some members \<Rightarrow> if removeAll cid members = [] then None
                              else Some (removeAll cid members))
      else Map_get rs R)"
proof (induction Rs arbitrary: rs)
  case Nil
  show ?case by simp
next
  case (Cons R' Rs)
  show ?case
    by (simp add: Cons.IH remove_from_room_get split: option.splits)
qed

lemma removeClient_unknown: "Map_get (clients s) cid = None \<Longrightarrow> removeClient cid s = s"
  by (simp add: removeClient_def)

lemma removeClient_known:
  "Map_get (clients s) cid = Some r \<Longrightarrow>
   removeClient cid s =
     (set_closed r s)\<lparr>rooms := fold (remove_from_room cid) (client_rooms (heap s ! r)) (rooms s),
                       clients := AList.delete cid (clients s)\<rparr>"
  by (simp add: removeClient_def Let_def Map_delete_def)

lemma in_lookupRoomMembers:
  "cid \<in> set (lookupRoomMembers s K) \<longleftrightarrow>
     (\<exists>members. Map_get (rooms s) K = Some members \<and> cid \<in> set members)"
  by (cases "Map_get (rooms s) K") (simp_all add: lookupRoomMembers_def)

lemma membership_consistent_iff:
  "membership_consistent s \<longleftrightarrow>
     (\<forall>K cid. cid \<in> set (lookupRoomMembers s K) \<longleftrightarrow>
        (\<exists>r. Map_get (clients s) cid = Some r \<and> K \<in> set (client_rooms (heap s ! r))))"
  by (simp add: membership_consistent_def in_lookupRoomMembers)

lemma getRoomClientCount_lookup: "getRoomClientCount K s = length (lookupRoomMembers s K)"
  by (cases "Map_get (rooms s) K") (simp_all add: getRoomClientCount_def lookupRoomMembers_def Set_size_def)

lemma addClient_lookup:
  "lookupRoomMembers (snd (addClient ctrl R now s)) K =
     (if K = R then Set_add (''client_'' @ decimal (clientIdCounter s + 1)) (lookupRoomMembers s R)
      else lookupRoomMembers s K)"
  by (cases "map_of (rooms s) R")
    (simp_all add: lookupRoomMembers_def addClient_eq Map_get_def update_conv')

lemma addClient_clients_get:
  "Map_get (clients (snd (addClient ctrl R now s))) cid =
     (if cid = ''client_'' @ decimal (clientIdCounter s + 1) then Some (length (heap s))
      else Map_get (clients s) cid)"
  by (simp add: addClient_eq Map_get_def update_conv')

lemma removeClient_lookup:
  assumes "Map_get (clients s) cid = Some r"
  shows "lookupRoomMembers (removeClient cid s) K =
     (if K \<in> set (client_rooms (heap s ! r)) then removeAll cid (lookupRoomMembers s K)
      else lookupRoomMembers s K)"
  by (cases "Map_get (rooms s) K")
    (simp_all add: lookupRoomMembers_def removeClient_known [OF assms] fold_remove_get)

lemma removeClient_clients_get:
  "Map_get (clients (removeClient cid s)) cid' =
     (if cid' = cid then None else Map_get (clients s) cid')"
proof (cases "Map_get (clients s) cid")
  case None
  then show ?thesis by (auto simp add: removeClient_unknown)
next
  case (Some r)
  show ?thesis by (simp add: removeClient_known [OF Some] Map_get_def delete_conv')
qed

lemma registry_inv_cong:
  assumes "rooms s' = rooms s" "clients s' = clients s" "clientIdCounter s' = clientIdCounter s"
    "length (heap s') = length (heap s)"
    "\<And>r. client_rooms (heap s' ! r) = client_rooms (heap s ! r)"
    and "registry_inv s"
  shows "registry_inv s'"
  using assms
  by (simp add: registry_inv_def ids_issued_def refs_allocated_def membership_consistent_def
      no_empty_room_def containers_distinct_def)

lemma registry_inv_empty:
  assumes "rooms s = []" "clients s = []"
  shows "registry_inv s"
  using assms
  by (simp add: registry_inv_def ids_issued_def refs_allocated_def membership_consistent_def
      no_empty_room_def containers_distinct_def Map_get_def)

lemma addClient_ids_issued:
  assumes "ids_issued s"
  shows "ids_issued (snd (addClient ctrl R now s))"
  unfolding ids_issued_def
proof
  fix cid
  assume "cid \<in> fst ` set (clients (snd (addClient ctrl R now s)))"
  then have "cid = ''client_'' @ decimal (clientIdCounter s + 1) \<or> cid \<in> fst ` set (clients s)"
    by (simp add: addClient_eq dom_update)
  then show "\<exists>k. 0 < k \<and> k \<le> clientIdCounter (snd (addClient ctrl R now s))
      \<and> cid = ''client_'' @ decimal k"
  proof
    assume "cid = ''client_'' @ decimal (clientIdCounter s + 1)"
    then show ?thesis by (intro exI [of _ "clientIdCounter s + 1"]) (simp add: addClient_eq)
  next
    assume "cid \<in> fst ` set (clients s)"
    with assms obtain k where "0 < k" "k \<le> clientIdCounter s" "cid = ''client_'' @ decimal k"
      unfolding ids_issued_def by blast
    then show ?thesis by (intro exI [of _ k]) (simp add: addClient_eq)
  qed
qed

lemma addClient_refs_allocated:
  assumes "refs_allocated s"
  shows "refs_allocated (snd (addClient ctrl R now s))"
  unfolding refs_allocated_def
proof
  fix r
  assume "r \<in> snd ` set (clients (snd (addClient ctrl R now s)))"
  then have "r \<in> insert (length (heap s)) (snd ` set (clients s))"
    using update_values [of "''client_'' @ decimal (clientIdCounter s + 1)" "length (heap s)" "clients s"]
    by (simp add: addClient_eq) blast
  then have "r \<le> length (heap s)"
    using assms unfolding refs_allocated_def by (auto simp add: less_imp_le)
  then show "r < length (heap (snd (addClient ctrl R now s)))"
    by (simp add: addClient_eq)
qed

lemma addClient_no_empty_room:
  assumes "no_empty_room s"
  shows "no_empty_room (snd (addClient ctrl R now s))"
  unfolding no_empty_room_def
proof (intro allI impI)
  fix K members
  assume get: "Map_get (rooms (snd (addClient ctrl R now s))) K = Some members"
  show "members \<noteq> []"
  proof (cases "K = R")
    case True
    from get have "members = lookupRoomMembers (snd (addClient ctrl R now s)) K"
      by (simp add: lookupRoomMembers_def)
    with True have "members = Set_add (''client_'' @ decimal (clientIdCounter s + 1))
        (lookupRoomMembers s R)"
      by (simp add: addClient_lookup)
    then show ?thesis by (auto simp add: Set_add_def split: if_splits)
  next
    case False
    with get have "Map_get (rooms s) K = Some members"
      by (simp add: addClient_eq Map_get_def update_conv')
    with assms show ?thesis unfolding no_empty_room_def by blast
  qed
qed

lemma lookup_distinct:
  assumes "containers_distinct s"
  shows "distinct (lookupRoomMembers s K)"
proof (cases "Map_get (rooms s) K")
  case None
  then show ?thesis by (simp add: lookupRoomMembers_def)
next
  case (Some members)
  then have "(K, members) \<in> set (rooms s)" by (simp add: Map_get_def map_of_SomeD)
  then have "members \<in> snd ` set (rooms s)" by (metis snd_conv image_eqI)
  with assms Some show ?thesis by (auto simp add: lookupRoomMembers_def containers_distinct_def)
qed

lemma addClient_rooms:
  "rooms (snd (addClient ctrl R now s)) =
     AList.update R (Set_add (''client_'' @ decimal (clientIdCounter s + 1)) (lookupRoomMembers s R))
       (rooms s)"
  by (cases "map_of (rooms s) R") (simp_all add: addClient_eq lookupRoomMembers_def Map_get_def)

lemma addClient_clients:
  "clients (snd (addClient ctrl R now s)) =
     AList.update (''client_'' @ decimal (clientIdCounter s + 1)) (length (heap s)) (clients s)"
  by (simp add: addClient_eq)

lemma addClient_containers_distinct:
  assumes "containers_distinct s"
  shows "containers_distinct (snd (addClient ctrl R now s))"
proof -
  let ?new = "Set_add (''client_'' @ decimal (clientIdCounter s + 1)) (lookupRoomMembers s R)"
  have fresh: "distinct ?new"
    using lookup_distinct [OF assms, of R] by (simp add: Set_add_def)
  have old: "distinct members" if "members \<in> snd ` set (rooms s)" for members
    using assms that unfolding containers_distinct_def by blast
  have each: "distinct members"
    if "members \<in> snd ` set (AList.update R ?new (rooms s))" for members
  proof -
    from that update_values [of R ?new "rooms s"]
    have "members = ?new \<or> members \<in> snd ` set (rooms s)" by blast
    with fresh old show ?thesis by blast
  qed
  have "distinct (map fst (clients (snd (addClient ctrl R now s))))"
    using assms unfolding containers_distinct_def addClient_clients by (simp add: distinct_update)
  moreover have "distinct (map fst (rooms (snd (addClient ctrl R now s))))"
    using assms unfolding containers_distinct_def addClient_rooms by (simp add: distinct_update)
  moreover have "\<forall>members \<in> snd ` set (rooms (snd (addClient ctrl R now s))). distinct members"
    unfolding addClient_rooms using each by blast
  ultimately show ?thesis unfolding containers_distinct_def by blast
qed

lemma allocated_ref:
  assumes "refs_allocated s" "Map_get (clients s) cid = Some r"
  shows "r < length (heap s)"
proof -
  from assms(2) have "(cid, r) \<in> set (clients s)" by (simp add: Map_get_def map_of_SomeD)
  then have "r \<in> snd ` set (clients s)" by (metis snd_conv image_eqI)
  with assms(1) show ?thesis unfolding refs_allocated_def by blast
qed

lemma fresh_id_get:
  "ids_issued s \<Longrightarrow> Map_get (clients s) (''client_'' @ decimal (clientIdCounter s + 1)) = None"
  using fresh_id [of s] by (simp add: Map_get_def map_of_eq_None_iff)

lemma fresh_id_not_member:
  assumes "ids_issued s" "membership_consistent s"
  shows "''client_'' @ decimal (clientIdCounter s + 1) \<notin> set (lookupRoomMembers s K)"
  using assms(2) fresh_id_get [OF assms(1)] by (simp add: membership_consistent_iff)

lemma addClient_membership:
  assumes ids: "ids_issued s" and refs: "refs_allocated s" and mem: "membership_consistent s"
  shows "membership_consistent (snd (addClient ctrl R now s))"
  unfolding membership_consistent_iff
proof (intro allI)
  fix K cid
  let ?ident = "''client_'' @ decimal (clientIdCounter s + 1)"
  let ?s' = "snd (addClient ctrl R now s)"
  show "cid \<in> set (lookupRoomMembers ?s' K) \<longleftrightarrow>
        (\<exists>r. Map_get (clients ?s') cid = Some r \<and> K \<in> set (client_rooms (heap ?s' ! r)))"
  proof (cases "cid = ?ident")
    case True
    have "cid \<in> set (lookupRoomMembers ?s' K) \<longleftrightarrow> K = R"
      using True fresh_id_not_member [OF ids mem, of K]
      by (simp add: addClient_lookup Set_add_def)
    moreover have "(\<exists>r. Map_get (clients ?s') cid = Some r
        \<and> K \<in> set (client_rooms (heap ?s' ! r))) \<longleftrightarrow> K = R"
      using True by (auto simp add: addClient_clients_get addClient_heap)
    ultimately show ?thesis by simp
  next
    case False
    have "cid \<in> set (lookupRoomMembers ?s' K) \<longleftrightarrow> cid \<in> set (lookupRoomMembers s K)"
      using False by (simp add: addClient_lookup Set_add_def)
    moreover have "(\<exists>r. Map_get (clients ?s') cid = Some r
          \<and> K \<in> set (client_rooms (heap ?s' ! r)))
        \<longleftrightarrow> (\<exists>r. Map_get (clients s) cid = Some r \<and> K \<in> set (client_rooms (heap s ! r)))"
      using False allocated_ref [OF refs, of cid]
      by (auto simp add: addClient_clients_get addClient_heap nth_append)
    ultimately show ?thesis using mem by (simp add: membership_consistent_iff)
  qed
qed

lemma addClient_inv: "registry_inv s \<Longrightarrow> registry_inv (snd (addClient ctrl R now s))"
  unfolding registry_inv_def
  by (simp add: addClient_ids_issued addClient_refs_allocated addClient_no_empty_room
      addClient_containers_distinct addClient_membership)

text \<open>removeClient\<close>

lemma removeClient_heap_length: "length (heap (removeClient cid s)) = length (heap s)"
  by (simp add: removeClient_heap split: option.splits)

lemma removeClient_client_rooms:
  "client_rooms (heap (removeClient cid s) ! r) = client_rooms (heap s ! r)"
  by (simp add: removeClient_heap split: option.splits)

lemma removeClient_counter: "clientIdCounter (removeClient cid s) = clientIdCounter s"
  by (cases "Map_get (clients s) cid") (simp_all add: removeClient_unknown removeClient_known)

lemma removeClient_clients:
  "clients (removeClient cid s) =
     (case Map_get (clients s) cid of None \<Rightarrow> clients s | Some r \<Rightarrow> AList.delete cid (clients s))"
  by (cases "Map_get (clients s) cid") (simp_all add: removeClient_unknown removeClient_known)

lemma removeClient_clients_subset: "set (clients (removeClient cid s)) \<subseteq> set (clients s)"
  using delete_subset [of cid "clients s"]
  by (simp add: removeClient_clients split: option.splits)

lemma removeClient_ids_issued:
  assumes "ids_issued s"
  shows "ids_issued (removeClient cid s)"
  using assms removeClient_clients_subset [of cid s]
  unfolding ids_issued_def by (simp add: removeClient_counter) blast

lemma removeClient_refs_allocated:
  assumes "refs_allocated s"
  shows "refs_allocated (removeClient cid s)"
  using assms removeClient_clients_subset [of cid s]
  unfolding refs_allocated_def by (simp add: removeClient_heap_length) blast

lemma removeClient_membership:
  assumes mem: "membership_consistent s"
  shows "membership_consistent (removeClient cid s)"
proof (cases "Map_get (clients s) cid")
  case None
  with mem show ?thesis by (simp add: removeClient_unknown)
next
  case (Some r)
  show ?thesis
    unfolding membership_consistent_iff
  proof (intro allI)
    fix K cid'
    have own: "cid \<in> set (lookupRoomMembers s K) \<longleftrightarrow> K \<in> set (client_rooms (heap s ! r))"
      using mem Some by (simp add: membership_consistent_iff)
    have "cid' \<in> set (lookupRoomMembers (removeClient cid s) K)
        \<longleftrightarrow> cid' \<noteq> cid \<and> cid' \<in> set (lookupRoomMembers s K)"
      using own by (auto simp add: removeClient_lookup [OF Some])
    moreover have "(\<exists>r'. Map_get (clients (removeClient cid s)) cid' = Some r'
          \<and> K \<in> set (client_rooms (heap (removeClient cid s) ! r')))
        \<longleftrightarrow> cid' \<noteq> cid
          \<and> (\<exists>r'. Map_get (clients s) cid' = Some r' \<and> K \<in> set (client_rooms (heap s ! r')))"
      by (simp add: removeClient_clients_get removeClient_client_rooms)
    ultimately show "cid' \<in> set (lookupRoomMembers (removeClient cid s) K)
        \<longleftrightarrow> (\<exists>r'. Map_get (clients (removeClient cid s)) cid' = Some r'
              \<and> K \<in> set (client_rooms (heap (removeClient cid s) ! r')))"
      using mem by (simp add: membership_consistent_iff)
  qed
qed

lemma removeClient_rooms_get:
  assumes "Map_get (clients s) cid = Some r"
  shows "Map_get (rooms (removeClient cid s)) K =
     (if K \<in> set (client_rooms (heap s ! r))
      then (case Map_get (rooms s) K of
              None \<Rightarrow> None
            | Some members \<Rightarrow> if removeAll cid members = [] then None
                              else Some (removeAll cid members))
      else Map_get (rooms s) K)"
  by (simp add: removeClient_known [OF assms] fold_remove_get)

lemma removeClient_no_empty_room:
  assumes "no_empty_room s"
  shows "no_empty_room (removeClient cid s)"
proof (cases "Map_get (clients s) cid")
  case None
  with assms show ?thesis by (simp add: removeClient_unknown)
next
  case (Some r)
  show ?thesis
    unfolding no_empty_room_def
  proof (intro allI impI)
    fix K members
    assume "Map_get (rooms (removeClient cid s)) K = Some members"
    then show "members \<noteq> []"
      using assms unfolding no_empty_room_def
      by (auto simp add: removeClient_rooms_get [OF Some] split: if_splits option.splits)
  qed
qed

lemma rooms_distinct_update:
  assumes "rooms_distinct rs" "distinct members"
  shows "rooms_distinct (AList.update K members rs)"
proof -
  have "distinct (map fst (AList.update K members rs))"
    using assms(1) by (simp add: rooms_distinct_def distinct_update)
  moreover have "distinct m" if "m \<in> snd ` set (AList.update K members rs)" for m
  proof -
    from that update_values [of K members rs] have "m = members \<or> m \<in> snd ` set rs" by blast
    with assms show ?thesis unfolding rooms_distinct_def by blast
  qed
  ultimately show ?thesis unfolding rooms_distinct_def by blast
qed

lemma rooms_distinct_delete:
  assumes "rooms_distinct rs"
  shows "rooms_distinct (AList.delete K rs)"
proof -
  have "distinct (map fst (AList.delete K rs))"
    using assms by (simp add: rooms_distinct_def distinct_delete)
  moreover have "distinct m" if "m \<in> snd ` set (AList.delete K rs)" for m
  proof -
    from that delete_subset [of K rs] have "m \<in> snd ` set rs" by blast
    with assms show ?thesis unfolding rooms_distinct_def by blast
  qed
  ultimately show ?thesis unfolding rooms_distinct_def by blast
qed

lemma rooms_distinct_get:
  assumes "rooms_distinct rs" "Map_get rs K = Some members"
  shows "distinct members"
proof -
  have "(K, members) \<in> set rs" using assms(2) by (simp add: Map_get_def map_of_SomeD)
  then have "members \<in> snd ` set rs" by (metis snd_conv image_eqI)
  with assms(1) show ?thesis unfolding rooms_distinct_def by blast
qed

lemma remove_from_room_distinct:
  assumes "rooms_distinct rs"
  shows "rooms_distinct (remove_from_room cid K rs)"
proof (cases "Map_get rs K")
  case None
  with assms show ?thesis by (simp add: remove_from_room_def)
next
  case (Some members)
  have "distinct (removeAll cid members)"
    using rooms_distinct_get [OF assms Some] by (simp add: distinct_removeAll)
  then have upd: "rooms_distinct (AList.update K (removeAll cid members) rs)"
    using assms by (intro rooms_distinct_update)
  then have del: "rooms_distinct (AList.delete K (AList.update K (removeAll cid members) rs))"
    by (rule rooms_distinct_delete)
  have "remove_from_room cid K rs =
      (if removeAll cid members = []
       then AList.delete K (AList.update K (removeAll cid members) rs)
       else AList.update K (removeAll cid members) rs)"
    using Some by (simp add: remove_from_room_def Map_set_def Map_delete_def Set_delete_def
        Set_size_def Let_def)
  with upd del show ?thesis by presburger
qed

lemma fold_remove_distinct:
  "rooms_distinct rs \<Longrightarrow> rooms_distinct (fold (remove_from_room cid) Ks rs)"
  by (induction Ks arbitrary: rs) (simp_all add: remove_from_room_distinct)

lemma removeClient_containers_distinct:
  assumes "containers_distinct s"
  shows "containers_distinct (removeClient cid s)"
proof (cases "Map_get (clients s) cid")
  case None
  with assms show ?thesis by (simp add: removeClient_unknown)
next
  case (Some r)
  have "rooms_distinct (rooms s)"
    using assms by (simp add: containers_distinct_def rooms_distinct_def)
  then have "rooms_distinct (fold (remove_from_room cid) (client_rooms (heap s ! r)) (rooms s))"
    by (rule fold_remove_distinct)
  moreover have "distinct (map fst (AList.delete cid (clients s)))"
    using assms by (simp add: containers_distinct_def distinct_delete)
  ultimately show ?thesis
    by (simp add: removeClient_known [OF Some] containers_distinct_def rooms_distinct_def)
qed

lemma removeClient_inv: "registry_inv s \<Longrightarrow> registry_inv (removeClient cid s)"
  unfolding registry_inv_def
  by (simp add: removeClient_ids_issued removeClient_refs_allocated removeClient_no_empty_room
      removeClient_containers_distinct removeClient_membership)

lemma sendEvent_inv: "registry_inv s \<Longrightarrow> registry_inv (snd (sendEvent r ev d s))"
proof (rule registry_inv_cong)
  fix r'
  show "client_rooms (heap (snd (sendEvent r ev d s)) ! r') = client_rooms (heap s ! r')"
    by (simp add: sendEvent_def writeSSE_def Let_def enqueue_def)
qed (simp_all add: sendEvent_def writeSSE_registry)

lemma broadcast_inv: "registry_inv s \<Longrightarrow> registry_inv (snd (broadcast R p s))"
proof (rule registry_inv_cong)
  fix r'
  show "client_rooms (heap (snd (broadcast R p s)) ! r') = client_rooms (heap s ! r')"
    by (simp add: broadcast_fold loop_client_fields split: option.splits)
qed (simp_all add: broadcast_registry)

lemma closeAllClients_inv: "registry_inv (closeAllClients s)"
  by (rule registry_inv_empty) (simp_all add: closeAllClients_def Let_def)

lemma run_inv: "registry_inv s \<Longrightarrow> registry_inv (run c s)"
  by (cases c) (simp_all add: addClient_inv removeClient_inv sendEvent_inv broadcast_inv
      closeAllClients_inv)

lemma reachable_inv: "reachable s \<Longrightarrow> registry_inv s"
proof (induction rule: reachable.induct)
  case (init ss)
  show ?case by (rule registry_inv_empty) (simp_all add: empty_registry_def)
next
  case (step s c)
  then show ?case by (simp add: run_inv)
next
  case (transport s ss)
  show ?case by (rule registry_inv_cong [OF _ _ _ _ _ transport.IH]) simp_all
qed

section \<open>Later states\<close>

lemma close_all_length:
  "length (heap (fold (\<lambda>entry. close_client (snd entry)) es s)) = length (heap s)"
  by (induction es arbitrary: s) (simp_all add: close_client_length)

lemma run_heap_length: "length (heap s) \<le> length (heap (run c s))"
  by (cases c)
    (simp_all add: addClient_heap removeClient_heap_length sendEvent_def writeSSE_registry
      broadcast_registry closeAllClients_def Let_def close_all_length)

lemma later_closed:
  assumes "later s s'" "r < length (heap s)" "closed (heap s ! r)"
  shows "r < length (heap s') \<and> closed (heap s' ! r)"
  using assms
proof (induction rule: later.induct)
  case (now s)
  then show ?case by simp
next
  case (call s s' c)
  then have "r < length (heap s')" "closed (heap s' ! r)" by simp_all
  then show ?case
    using run_heap_length [of s' c] by (simp add: run_closed_monotonic)
next
  case (transport s s' ss)
  then show ?case by simp
qed

lemma deliver_closed_skip:
  "Map_get (clients (snd st)) cid = Some r \<Longrightarrow> closed (heap (snd st) ! r) \<Longrightarrow> deliver b cid st = st"
  by (simp add: deliver_def)

lemma loop_skip_closed:
  "closed (heap (snd st) ! r) \<Longrightarrow>
   fold (deliver b) ms st =
     fold (deliver b) (filter (\<lambda>cid. Map_get (clients (snd st)) cid \<noteq> Some r) ms) st"
proof (induction ms arbitrary: st)
  case Nil
  show ?case by simp
next
  case (Cons m ms)
  have still: "closed (heap (snd (deliver b m st)) ! r)"
    using Cons.prems by (simp add: deliver_closed)
  show ?case
  proof (cases "Map_get (clients (snd st)) m = Some r")
    case True
    then have "deliver b m st = st" using Cons.prems by (rule deliver_closed_skip)
    with True Cons.IH [OF Cons.prems] show ?thesis by simp
  next
    case False
    with Cons.IH [OF still] show ?thesis by (simp add: deliver_registry)
  qed
qed

section \<open>The example states\<close>

lemma decimal_values:
  "decimal (Suc 0) = ''1''" "decimal (Suc (Suc 0)) = ''2''" "decimal (Suc (Suc (Suc 0))) = ''3''"
  "decimal 1 = ''1''" "decimal 2 = ''2''" "decimal 3 = ''3''"
  by code_simp+

lemma decimal_501: "decimal 501 = ''501''"
  by code_simp

lemma one_client_value:
  "one_client =
     \<lparr>rooms = [(''s1:b1'', [''client_1''])], clients = [(''client_1'', 0)], clientIdCounter = 1,
      heap = [\<lparr>client_id = ''client_1'', controller = 0, client_rooms = [''s1:b1''],
               connectedAt = 0, closed = False\<rparr>],
      sinks = [open_sink, shut_sink, open_sink]\<rparr>"
  by (simp add: one_client_def addClient_eq empty_registry_def Set_add_def decimal_values)

lemma two_clients_value:
  "two_clients =
     \<lparr>rooms = [(''s1:b1'', [''client_1'', ''client_2''])],
      clients = [(''client_1'', 0), (''client_2'', 1)], clientIdCounter = 2,
      heap = [\<lparr>client_id = ''client_1'', controller = 0, client_rooms = [''s1:b1''],
               connectedAt = 0, closed = False\<rparr>,
              \<lparr>client_id = ''client_2'', controller = 1, client_rooms = [''s1:b1''],
               connectedAt = 0, closed = False\<rparr>],
      sinks = [open_sink, shut_sink, open_sink]\<rparr>"
  by (simp add: two_clients_def one_client_value addClient_eq Set_add_def decimal_values)

lemma three_clients_value:
  "three_clients =
     \<lparr>rooms = [(''s1:b1'', [''client_1'', ''client_2'', ''client_3''])],
      clients = [(''client_1'', 0), (''client_2'', 1), (''client_3'', 2)], clientIdCounter = 3,
      heap = [\<lparr>client_id = ''client_1'', controller = 0, client_rooms = [''s1:b1''],
               connectedAt = 0, closed = False\<rparr>,
              \<lparr>client_id = ''client_2'', controller = 1, client_rooms = [''s1:b1''],
               connectedAt = 0, closed = False\<rparr>,
              \<lparr>client_id = ''client_3'', controller = 2, client_rooms = [''s1:b1''],
               connectedAt = 0, closed = False\<rparr>],
      sinks = [open_sink, shut_sink, open_sink]\<rparr>"
  by (simp add: three_clients_def two_clients_value addClient_eq Set_add_def decimal_values)

lemma reachable_one_client: "reachable one_client"
  unfolding one_client_def
  by (intro reachable.step reachable.init) (simp add: empty_registry_def)

lemma reachable_two_clients: "reachable two_clients"
  unfolding two_clients_def
  by (intro reachable.step reachable_one_client) (simp add: one_client_value)

lemma reachable_three_clients: "reachable three_clients"
  unfolding three_clients_def
  by (intro reachable.step reachable_two_clients) (simp add: two_clients_value)

lemma broadcast_three_clients:
  "broadcast ''s1:b1'' null_payload three_clients =
     (2, three_clients
          \<lparr>heap := (heap three_clients)[1 := (heap three_clients ! 1)\<lparr>closed := True\<rparr>],
           sinks := [open_sink\<lparr>queue := [sse_frame ''entity-event'' ''null'']\<rparr>, shut_sink,
                     open_sink\<lparr>queue := [sse_frame ''entity-event'' ''null'']\<rparr>]\<rparr>)"
  by (simp add: three_clients_value broadcast_def Map_get_def enqueue_def encode_def Let_def
      set_closed_def open_sink_def shut_sink_def JSON_stringify_null)

section \<open>The yielding broadcast\<close>

lemma loop_step:
  "broadcast_loop b (m # rest) n s =
     broadcast_loop b rest (fst (deliver b m (n, s))) (snd (deliver b m (n, s)))"
  by (simp add: broadcast_loop_fold)

lemma yielding_unfold:
  "broadcast_loop_yielding sched R b att (m # rest) n s =
     (if fst (deliver b m (n, s)) \<noteq> n \<and> fst (deliver b m (n, s)) mod BATCH = 0
      then (case sched of
              [] \<Rightarrow> broadcast_loop_yielding [] R b att rest (fst (deliver b m (n, s)))
                      (snd (deliver b m (n, s)))
            | tasks # sched' \<Rightarrow>
                (case fold (interleave R) tasks (att, rest, snd (deliver b m (n, s))) of
                   (att', rest', s2) \<Rightarrow>
                     broadcast_loop_yielding sched' R b att' rest' (fst (deliver b m (n, s))) s2))
      else broadcast_loop_yielding sched R b att rest (fst (deliver b m (n, s)))
             (snd (deliver b m (n, s))))"
proof (cases "Map_get (clients s) m")
  case None
  then show ?thesis by (simp add: deliver_def)
next
  case (Some r)
  show ?thesis
  proof (cases "closed (heap s ! r)")
    case True
    with Some show ?thesis by (simp add: deliver_def)
  next
    case False
    show ?thesis
    proof (cases "enqueue (sinks s ! controller (heap s ! r)) b")
      case (Inl e)
      with Some False show ?thesis by (simp add: deliver_def)
    next
      case (Inr c')
      with Some False
      have d: "deliver b m (n, s) = (n + 1, s\<lparr>sinks := (sinks s)[controller (heap s ! r) := c']\<rparr>)"
        by (simp add: deliver_def)
      show ?thesis
        unfolding d using Some False Inr by (cases sched) (simp_all add: Let_def)
    qed
  qed
qed

lemma yielding_step_on:
  assumes "fst (deliver b m (n, s)) mod BATCH \<noteq> 0 \<or> fst (deliver b m (n, s)) = n"
  shows "broadcast_loop_yielding sched R b att (m # rest) n s =
     broadcast_loop_yielding sched R b att rest (fst (deliver b m (n, s))) (snd (deliver b m (n, s)))"
  using assms by (subst yielding_unfold) auto

lemma yielding_idle:
  assumes "\<forall>tasks \<in> set sched. tasks = []"
  shows "broadcast_loop_yielding sched R b att rest n s = broadcast_loop b rest n s"
  using assms
proof (induction rest arbitrary: sched n s)
  case Nil
  show ?case by simp
next
  case (Cons m rest)
  let ?n' = "fst (deliver b m (n, s))" and ?s' = "snd (deliver b m (n, s))"
  have same: "broadcast_loop_yielding sched R b att rest ?n' ?s' = broadcast_loop b rest ?n' ?s'"
    using Cons.prems by (rule Cons.IH)
  have none: "broadcast_loop_yielding [] R b att rest ?n' ?s' = broadcast_loop b rest ?n' ?s'"
    by (rule Cons.IH) simp
  have tail: "broadcast_loop_yielding sched' R b att rest ?n' ?s' = broadcast_loop b rest ?n' ?s'"
    if "sched = tasks # sched'" for tasks sched'
    using Cons.prems that by (intro Cons.IH) simp
  have empty: "tasks = []" if "sched = tasks # sched'" for tasks sched'
    using Cons.prems that by simp
  show ?case
  proof (cases sched)
    case Nil
    have "broadcast_loop_yielding [] R b att (m # rest) n s = broadcast_loop b rest ?n' ?s'"
      by (subst yielding_unfold) (simp add: none)
    with Nil show ?thesis by (simp only: loop_step)
  next
    case (Cons tasks sched')
    have "broadcast_loop_yielding (tasks # sched') R b att (m # rest) n s =
        broadcast_loop b rest ?n' ?s'"
      using same tail [OF Cons] empty [OF Cons] Cons
      by (subst yielding_unfold) simp
    with Cons show ?thesis by (simp only: loop_step)
  qed
qed

lemma yielding_prefix:
  assumes "n + length (filter (live_member s) pre) < BATCH"
  shows "broadcast_loop_yielding sched R b att (pre @ post) n s =
     broadcast_loop_yielding sched R b att post
       (fst (fold (deliver b) pre (n, s))) (snd (fold (deliver b) pre (n, s)))"
  using assms
proof (induction pre arbitrary: n s)
  case Nil
  show ?case by simp
next
  case (Cons m pre)
  let ?n' = "fst (deliver b m (n, s))" and ?s' = "snd (deliver b m (n, s))"
  have n': "?n' = n + (if live_member s m then 1 else 0)" by (simp add: deliver_count)
  have live: "live_member ?s' = live_member s" using deliver_live [of b m "(n, s)"] by simp
  have bound: "?n' + length (filter (live_member ?s') pre) < BATCH"
  proof (cases "live_member s m")
    case True
    with Cons.prems n' live show ?thesis by simp
  next
    case False
    with Cons.prems n' live show ?thesis by simp
  qed
  then have "?n' < BATCH" by simp
  then have on: "?n' mod BATCH \<noteq> 0 \<or> ?n' = n" using n' by (cases "live_member s m") simp_all
  have "broadcast_loop_yielding sched R b att ((m # pre) @ post) n s =
      broadcast_loop_yielding sched R b att (pre @ post) ?n' ?s'"
    using yielding_step_on [OF on] by simp
  also have "\<dots> = broadcast_loop_yielding sched R b att post
      (fst (fold (deliver b) pre (?n', ?s'))) (snd (fold (deliver b) pre (?n', ?s')))"
    by (rule Cons.IH [OF bound])
  finally show ?case by simp
qed

lemma yielding_short:
  assumes "n + length (filter (live_member s) rest) < BATCH"
  shows "broadcast_loop_yielding sched R b att rest n s = broadcast_loop b rest n s"
  using yielding_prefix [OF assms, of sched R b att "[]"]
  by (simp add: broadcast_loop_fold)

text \<open>The full room.\<close>

lemma crowd_id_inj: "crowd_id a = crowd_id b \<Longrightarrow> a = b"
  using decimal_inj [of "Suc a" "Suc b"] by (simp add: crowd_id_def)

lemma crowd_id_fresh: "crowd_id n \<notin> crowd_id ` set [0..<n]"
  by (auto dest: crowd_id_inj)

lemma crowd_value:
  "crowd n =
     \<lparr>rooms = (if n = 0 then [] else [(''s1:b1'', map crowd_id [0..<n])]),
      clients = map (\<lambda>k. (crowd_id k, k)) [0..<n],
      clientIdCounter = n,
      heap = map crowd_client [0..<n],
      sinks = replicate 501 open_sink\<rparr>"
proof (induction n)
  case 0
  show ?case by (simp add: empty_registry_def)
next
  case (Suc n)
  have old: "rooms (crowd n) = (if n = 0 then [] else [(''s1:b1'', map crowd_id [0..<n])])"
    "clients (crowd n) = map (\<lambda>k. (crowd_id k, k)) [0..<n]"
    "clientIdCounter (crowd n) = n"
    "heap (crowd n) = map crowd_client [0..<n]"
    "sinks (crowd n) = replicate 501 open_sink"
    by (simp_all add: Suc.IH)
  have lookup: "lookupRoomMembers (crowd n) ''s1:b1'' = map crowd_id [0..<n]"
    by (simp add: lookupRoomMembers_def Map_get_def old)
  have members: "Set_add (crowd_id n) (map crowd_id [0..<n]) = map crowd_id [0..<n] @ [crowd_id n]"
    using crowd_id_fresh [of n] by (simp add: Set_add_def)
  have keys: "crowd_id n \<notin> fst ` set (map (\<lambda>k. (crowd_id k, k)) [0..<n])"
    using crowd_id_fresh [of n] by (simp add: image_image)
  have r: "rooms (crowd (Suc n)) = [(''s1:b1'', map crowd_id [0..<Suc n])]"
    using members by (simp add: addClient_rooms lookup old crowd_id_def)
  have c: "clients (crowd (Suc n)) = map (\<lambda>k. (crowd_id k, k)) [0..<Suc n]"
    using update_fresh [OF keys, of n] by (simp add: addClient_clients old crowd_id_def)
  have h: "heap (crowd (Suc n)) = map crowd_client [0..<Suc n]"
    by (simp add: addClient_heap old crowd_client_def crowd_id_def)
  have i: "clientIdCounter (crowd (Suc n)) = Suc n" "sinks (crowd (Suc n)) = replicate 501 open_sink"
    by (simp_all add: addClient_eq old)
  show ?case
    by (rule world.equality) (simp_all add: r c h i del: crowd.simps)
qed

lemma reachable_crowd: "n \<le> 501 \<Longrightarrow> reachable (crowd n)"
proof (induction n)
  case 0
  show ?case by (simp add: reachable.init)
next
  case (Suc n)
  then have "reachable (crowd n)" by simp
  moreover have "valid_call (AddClient n ''s1:b1'' 0) (crowd n)"
    using Suc.prems by (simp add: crowd_value)
  ultimately have "reachable (run (AddClient n ''s1:b1'' 0) (crowd n))" by (rule reachable.step)
  then show ?case by simp
qed

lemma map_of_map_inj:
  assumes "\<And>a b. f a = f b \<Longrightarrow> a = b" "x \<in> set xs"
  shows "map_of (map (\<lambda>k. (f k, g k)) xs) (f x) = Some (g x)"
  using assms(2)
proof (induction xs)
  case Nil
  then show ?case by simp
next
  case (Cons y ys)
  then show ?case using assms(1) [of x y] by auto
qed

lemma crowd_registered: "k < n \<Longrightarrow> Map_get (clients (crowd n)) (crowd_id k) = Some k"
  using map_of_map_inj [of crowd_id k "[0..<n]" "\<lambda>k. k"] crowd_id_inj
  by (simp add: crowd_value Map_get_def)

lemma crowd_heap: "k < n \<Longrightarrow> heap (crowd n) ! k = crowd_client k"
  by (simp add: crowd_value)

lemma crowd_live: "k < n \<Longrightarrow> n \<le> 501 \<Longrightarrow> live_member (crowd n) (crowd_id k)"
  by (simp add: live_member_def crowd_registered crowd_heap)
    (simp add: crowd_value crowd_client_def open_sink_def)

lemma crowd_room: "0 < n \<Longrightarrow> Map_get (rooms (crowd n)) ''s1:b1'' = Some (map crowd_id [0..<n])"
  by (simp add: crowd_value Map_get_def)

lemma crowd_all_live:
  assumes "n \<le> 501" "j \<le> n"
  shows "filter (live_member (crowd n)) (map crowd_id [0..<j]) = map crowd_id [0..<j]"
  using assms by (simp add: filter_id_conv crowd_live)

lemma interleave_remove_last:
  assumes reg: "Map_get (clients s) cid = Some r"
    and room: "R \<in> set (client_rooms (heap s ! r))"
  shows "fold (interleave R) [Call (RemoveClient cid)] (True, [cid], s) =
     (Map_has (rooms (removeClient cid s)) R, [], removeClient cid s)"
proof -
  have lookup: "lookupRoomMembers (removeClient cid s) R = removeAll cid (lookupRoomMembers s R)"
    using room by (simp add: removeClient_lookup [OF reg])
  have "filter (\<lambda>x. x \<in> set (removeAll cid (lookupRoomMembers s R))) [cid] = []"
    by simp
  moreover have "filter (\<lambda>x. x \<notin> set (lookupRoomMembers s R))
      (removeAll cid (lookupRoomMembers s R)) = []"
    by (simp add: filter_empty_conv)
  ultimately show ?thesis by (simp add: lookup Let_def)
qed

lemma crowd_sync:
  assumes "0 < n" "n \<le> 501"
  shows "fst (broadcast ''s1:b1'' p (crowd n)) = n"
proof -
  have "fst (broadcast ''s1:b1'' p (crowd n)) =
      length (filter (live_member (crowd n)) (map crowd_id [0..<n]))"
    using crowd_room [OF assms(1)] by (simp add: broadcast_fold loop_count)
  also have "\<dots> = n" using crowd_all_live [OF assms(2), of n] by simp
  finally show ?thesis .
qed

lemma crowd_yielding:
  assumes batch: "Suc m = BATCH" and size: "Suc (Suc m) \<le> 501"
  shows "fst (broadcast_yielding [[Call (RemoveClient (crowd_id (Suc m)))]] ''s1:b1'' p
            (crowd (Suc (Suc m)))) = Suc m"
proof -
  let ?s = "crowd (Suc (Suc m))"
  let ?b = "sse_frame ''entity-event'' (JSON_stringify p)"
  let ?cid = "crowd_id (Suc m)"
  let ?sched = "[[Call (RemoveClient ?cid)]]"
  let ?pre = "map crowd_id [0..<m]"
  let ?st1 = "fold (deliver ?b) ?pre (0, ?s)"
  let ?st2 = "deliver ?b (crowd_id m) (fst ?st1, snd ?st1)"
  have members: "map crowd_id [0..<Suc (Suc m)] = ?pre @ [crowd_id m, ?cid]" by simp
  have start: "broadcast_yielding ?sched ''s1:b1'' p ?s =
      broadcast_loop_yielding ?sched ''s1:b1'' ?b True (?pre @ [crowd_id m, ?cid]) 0 ?s"
    using crowd_room [of "Suc (Suc m)"] members
    by (simp add: broadcast_yielding_def encode_def del: crowd.simps upt_Suc)
  have live_pre: "filter (live_member ?s) ?pre = ?pre"
    using crowd_all_live [OF size, of m] by simp
  have "length ?pre < BATCH" using batch by simp
  then have "0 + length (filter (live_member ?s) ?pre) < BATCH"
    by (simp only: live_pre add_0)
  then have prefix: "broadcast_loop_yielding ?sched ''s1:b1'' ?b True (?pre @ [crowd_id m, ?cid]) 0 ?s =
      broadcast_loop_yielding ?sched ''s1:b1'' ?b True [crowd_id m, ?cid] (fst ?st1) (snd ?st1)"
    by (rule yielding_prefix)
  have n1: "fst ?st1 = m"
    by (simp only: loop_count live_pre snd_conv fst_conv) simp
  have live1: "live_member (snd ?st1) = live_member ?s"
    by (simp add: loop_live del: crowd.simps)
  have "live_member ?s (crowd_id m)" using size by (intro crowd_live) simp_all
  then have n2: "fst ?st2 = Suc m"
    by (simp add: deliver_count live1 n1 del: crowd.simps)
  have reg: "Map_get (clients (snd ?st2)) ?cid = Some (Suc m)"
    using crowd_registered [of "Suc m" "Suc (Suc m)"]
    by (simp add: deliver_registry loop_registry del: crowd.simps)
  have "client_rooms (heap (snd ?st2) ! Suc m) = client_rooms (heap ?s ! Suc m)"
    by (simp add: deliver_client_fields loop_client_fields del: crowd.simps)
  also have "\<dots> = [''s1:b1'']"
    using crowd_heap [of "Suc m" "Suc (Suc m)"] by (simp add: crowd_client_def del: crowd.simps)
  finally have room: "''s1:b1'' \<in> set (client_rooms (heap (snd ?st2) ! Suc m))" by simp
  have tasks: "fold (interleave ''s1:b1'') [Call (RemoveClient ?cid)] (True, [?cid], snd ?st2) =
      (Map_has (rooms (removeClient ?cid (snd ?st2))) ''s1:b1'', [], removeClient ?cid (snd ?st2))"
    using reg room by (rule interleave_remove_last)
  have zero: "Suc m mod BATCH = 0" using batch by simp
  have cond: "fst ?st2 \<noteq> fst ?st1 \<and> fst ?st2 mod BATCH = 0"
    using n1 n2 zero by (metis n_not_Suc_n)
  have suspend: "broadcast_loop_yielding ?sched ''s1:b1'' ?b True [crowd_id m, ?cid] (fst ?st1) (snd ?st1) =
      (Suc m, removeClient ?cid (snd ?st2))"
    apply (subst yielding_unfold)
    apply (simp only: if_P [OF cond] list.case tasks prod.case broadcast_loop_yielding.simps(1))
    apply (simp only: n2)
    done
  show ?thesis
    by (simp only: start prefix suspend fst_conv)
qed

section \<open>The claims\<close>

subsection \<open>C1: failure isolation of broadcast\<close>

text \<open>
  Claim C1. The room \<open>R\<close> has exactly the three members \<open>a\<close>, \<open>b\<close> and \<open>c\<close>, all
  registered; \<open>a\<close> and \<open>c\<close> are not closed and their sinks accept a write, the sink of
  \<open>b\<close> rejects every write. Then \<open>broadcast\<close> returns 2 (a number, never an error),
  afterwards \<open>b\<close> is closed, \<open>a\<close> and \<open>c\<close> are not, both indices are as before, so all
  three are still registered members, and the sinks of \<open>a\<close> and \<open>c\<close> have received the
  frame: wherever \<open>b\<close> stands in the iteration order, its failure does not stop the
  writes to the others.
\<close>

theorem broadcast_failure_isolation:
  assumes room: "Map_get (rooms s) R = Some members"
    and three: "distinct members" "set members = {a, b, c}" "a \<noteq> c"
    and registered: "Map_get (clients s) a = Some ra" "Map_get (clients s) b = Some rb"
      "Map_get (clients s) c = Some rc"
    and allocated: "rb < length (heap s)"
    and live: "\<not> closed (heap s ! ra)" "\<not> closed (heap s ! rc)"
    and writes: "readable (sinks s ! controller (heap s ! ra))"
      "\<not> readable (sinks s ! controller (heap s ! rb))"
      "readable (sinks s ! controller (heap s ! rc))"
    and sinks_allocated: "controller (heap s ! ra) < length (sinks s)"
      "controller (heap s ! rc) < length (sinks s)"
  shows "fst (broadcast R p s) = 2
    \<and> closed (heap (snd (broadcast R p s)) ! rb)
    \<and> \<not> closed (heap (snd (broadcast R p s)) ! ra)
    \<and> \<not> closed (heap (snd (broadcast R p s)) ! rc)
    \<and> clients (snd (broadcast R p s)) = clients s
    \<and> rooms (snd (broadcast R p s)) = rooms s
    \<and> (\<forall>k \<in> {controller (heap s ! ra), controller (heap s ! rc)}.
          \<exists>n > 0. queue (sinks (snd (broadcast R p s)) ! k) =
            queue (sinks s ! k) @ replicate n (sse_frame ''entity-event'' (JSON_stringify p)))"
proof -
  have la: "live_member s a" and lb: "\<not> live_member s b" and lc: "live_member s c"
    using registered live writes by (simp_all add: live_member_def)
  have "fst (broadcast R p s) = length (filter (live_member s) members)"
    using room by (simp add: broadcast_fold loop_count)
  also have "\<dots> = 2" using three la lb lc by (intro filter_length_two)
  finally have count: "fst (broadcast R p s) = 2" .
  have "b \<in> set members" using three by simp
  then have cb: "closed (heap (snd (broadcast R p s)) ! rb)"
    using room registered allocated writes by (auto simp add: broadcast_closed)
  have ca: "\<not> closed (heap (snd (broadcast R p s)) ! ra)"
    using live writes by (simp add: broadcast_closed)
  have cc: "\<not> closed (heap (snd (broadcast R p s)) ! rc)"
    using live writes by (simp add: broadcast_closed)
  have received: "\<exists>n > 0. queue (sinks (snd (broadcast R p s)) ! k) =
      queue (sinks s ! k) @ replicate n (sse_frame ''entity-event'' (JSON_stringify p))"
    if x: "x \<in> set members" "live_member s x" "member_sink s x = Some k" "k < length (sinks s)"
    for x k
  proof -
    let ?n = "length (filter (\<lambda>cid. live_member s cid \<and> member_sink s cid = Some k) members)"
    have "x \<in> set (filter (\<lambda>cid. live_member s cid \<and> member_sink s cid = Some k) members)"
      using x by simp
    then have "0 < ?n" by (metis length_pos_if_in_set)
    moreover have "queue (sinks (snd (broadcast R p s)) ! k) =
        queue (sinks s ! k) @ replicate ?n (sse_frame ''entity-event'' (JSON_stringify p))"
      using room x(4) by (simp add: broadcast_fold loop_queue)
    ultimately show ?thesis by blast
  qed
  have ra: "\<exists>n > 0. queue (sinks (snd (broadcast R p s)) ! controller (heap s ! ra)) =
      queue (sinks s ! controller (heap s ! ra)) @
        replicate n (sse_frame ''entity-event'' (JSON_stringify p))"
    using three registered la sinks_allocated
    by (intro received [of a]) (simp_all add: member_sink_def)
  have rc: "\<exists>n > 0. queue (sinks (snd (broadcast R p s)) ! controller (heap s ! rc)) =
      queue (sinks s ! controller (heap s ! rc)) @
        replicate n (sse_frame ''entity-event'' (JSON_stringify p))"
    using three registered lc sinks_allocated
    by (intro received [of c]) (simp_all add: member_sink_def)
  from count cb ca cc ra rc show ?thesis by (simp add: broadcast_registry)
qed

theorem broadcast_failure_isolation_witness:
  "fst (broadcast ''s1:b1'' null_payload three_clients) = 2
   \<and> closed (heap (snd (broadcast ''s1:b1'' null_payload three_clients)) ! 1)
   \<and> \<not> closed (heap (snd (broadcast ''s1:b1'' null_payload three_clients)) ! 0)
   \<and> \<not> closed (heap (snd (broadcast ''s1:b1'' null_payload three_clients)) ! 2)
   \<and> clients (snd (broadcast ''s1:b1'' null_payload three_clients)) = clients three_clients"
  using broadcast_failure_isolation [of three_clients "''s1:b1''"
      "[''client_1'', ''client_2'', ''client_3'']" "''client_1''" "''client_2''" "''client_3''"
      0 1 2 null_payload]
  by (simp add: three_clients_value Map_get_def open_sink_def shut_sink_def)

subsection \<open>C2: two-way membership consistency\<close>

text \<open>
  Claim C2. In every reachable state, a client identifier is in the member set of the
  room \<open>R\<close> exactly if the client stored under that identifier in the client index has
  \<open>R\<close> in its \<open>rooms\<close> set.
\<close>

theorem membership_two_way:
  assumes "reachable s"
  shows "(\<exists>members. Map_get (rooms s) R = Some members \<and> cid \<in> set members)
     \<longleftrightarrow> (\<exists>r. Map_get (clients s) cid = Some r \<and> R \<in> set (client_rooms (heap s ! r)))"
  using reachable_inv [OF assms]
  unfolding registry_inv_def membership_consistent_def by blast

theorem membership_two_way_witness:
  "reachable two_clients
   \<and> (\<exists>members. Map_get (rooms two_clients) ''s1:b1'' = Some members \<and> ''client_2'' \<in> set members)
   \<and> (\<exists>r. Map_get (clients two_clients) ''client_2'' = Some r
         \<and> ''s1:b1'' \<in> set (client_rooms (heap two_clients ! r)))"
proof -
  have members: "\<exists>members. Map_get (rooms two_clients) ''s1:b1'' = Some members
      \<and> ''client_2'' \<in> set members"
    by (simp add: two_clients_value Map_get_def)
  with membership_two_way [OF reachable_two_clients, of "''s1:b1''" "''client_2''"]
  have "\<exists>r. Map_get (clients two_clients) ''client_2'' = Some r
      \<and> ''s1:b1'' \<in> set (client_rooms (heap two_clients ! r))"
    by simp
  with members reachable_two_clients show ?thesis by simp
qed

subsection \<open>C3: one serialization, the same frame for every member\<close>

text \<open>
  Claim C3. When the room exists, a call of \<open>broadcast\<close> calls \<open>JSON.stringify\<close> exactly
  once, on the payload: the record of the serializer's calls grows by that one entry, and
  the loop works on the encoded bytes alone. Every sink ends with its old queue followed
  by that one frame, once for each member writing to it whose write succeeded, and the
  number returned is the number of those members. The frame is the line
  \<open>event: entity-event\<close>, the line made of \<open>data: \<close> and the JSON text of the payload, and
  one empty line; neither line has a line feed in it, so the frame ends with exactly one
  blank line.
\<close>

theorem broadcast_payload_fidelity:
  assumes "Map_get (rooms s) R = Some members" and "k < length (sinks s)"
  shows "snd (broadcast_logged R p calls s) = calls @ [p]
     \<and> fst (broadcast_logged R p calls s) = broadcast R p s
     \<and> queue (sinks (snd (broadcast R p s)) ! k) =
         queue (sinks s ! k) @
           replicate (length (filter (\<lambda>cid. live_member s cid \<and> member_sink s cid = Some k) members))
             (''event: entity-event'' @ [CHR 0x0A] @ ''data: '' @ JSON_stringify p @ [CHR 0x0A]
                @ [CHR 0x0A])
     \<and> CHR 0x0A \<notin> set ''event: entity-event''
     \<and> CHR 0x0A \<notin> set (''data: '' @ JSON_stringify p)
     \<and> fst (broadcast R p s) = length (filter (live_member s) members)"
  using assms
  by (simp add: broadcast_logged_calls broadcast_logged_result broadcast_fold loop_queue
      loop_count JSON_stringify_no_newline sse_frame_def)

theorem broadcast_payload_fidelity_witness:
  "snd (broadcast_logged ''s1:b1'' null_payload [] three_clients) = [null_payload]
   \<and> queue (sinks (snd (broadcast ''s1:b1'' null_payload three_clients)) ! 2) =
       [''event: entity-event'' @ [CHR 0x0A] @ ''data: null'' @ [CHR 0x0A, CHR 0x0A]]
   \<and> fst (broadcast ''s1:b1'' null_payload three_clients) = 2"
  using broadcast_payload_fidelity [of three_clients "''s1:b1''"
      "[''client_1'', ''client_2'', ''client_3'']" 2 null_payload "[]"]
  by (simp add: three_clients_value Map_get_def live_member_def member_sink_def open_sink_def
      shut_sink_def JSON_stringify_null)

subsection \<open>C4: no empty room\<close>

text \<open>
  Claim C4. No reachable state has a room with an empty member set. When \<open>removeClient\<close>
  removes the only member of the room \<open>R\<close>, the room index has no entry for \<open>R\<close>
  afterwards, \<open>getRoomClientCount\<close> gives 0 and a broadcast to \<open>R\<close> returns 0 and changes
  nothing, as for a room that never existed.
\<close>

theorem empty_room_cleanup:
  assumes "reachable s"
  shows "(\<forall>K members. Map_get (rooms s) K = Some members \<longrightarrow> members \<noteq> [])
    \<and> (Map_get (rooms s) R = Some members \<and> set members = {cid}
        \<longrightarrow> Map_get (rooms (removeClient cid s)) R = None
          \<and> \<not> Map_has (rooms (removeClient cid s)) R
          \<and> R \<notin> fst ` set (rooms (removeClient cid s))
          \<and> getRoomClientCount R (removeClient cid s) = 0
          \<and> broadcast R p (removeClient cid s) = (0, removeClient cid s))"
proof -
  have inv: "registry_inv s" using assms by (rule reachable_inv)
  then have first: "\<forall>K members. Map_get (rooms s) K = Some members \<longrightarrow> members \<noteq> []"
    by (simp add: registry_inv_def no_empty_room_def)
  have second: "Map_get (rooms (removeClient cid s)) R = None"
    if room: "Map_get (rooms s) R = Some members" and last: "set members = {cid}"
  proof -
    from room last have "\<exists>members. Map_get (rooms s) R = Some members \<and> cid \<in> set members"
      by auto
    with inv obtain r where r: "Map_get (clients s) cid = Some r"
      and R: "R \<in> set (client_rooms (heap s ! r))"
      unfolding registry_inv_def membership_consistent_def by blast
    from last have "removeAll cid members = []"
      by (metis removeAll_id removeAll.simps(1) set_removeAll Diff_cancel set_empty)
    with room R show ?thesis by (simp add: removeClient_rooms_get [OF r])
  qed
  have third: "\<not> Map_has rs R \<and> R \<notin> fst ` set rs" if "Map_get rs R = None"
    for rs :: "(string \<times> string list) list"
    using that by (simp add: Map_has_def Map_get_def map_of_eq_None_iff)
  show ?thesis
    using first second third [of "rooms (removeClient cid s)"]
    by (auto simp add: getRoomClientCount_def broadcast_def)
qed

theorem empty_room_cleanup_witness:
  "reachable one_client
   \<and> Map_get (rooms one_client) ''s1:b1'' = Some [''client_1'']
   \<and> Map_get (rooms (removeClient ''client_1'' one_client)) ''s1:b1'' = None
   \<and> getRoomClientCount ''s1:b1'' (removeClient ''client_1'' one_client) = 0"
  using empty_room_cleanup [OF reachable_one_client, of "''s1:b1''" "[''client_1'']" "''client_1''"]
    reachable_one_client
  by (simp add: one_client_value Map_get_def)

subsection \<open>C5: removeClient is idempotent\<close>

text \<open>
  Claim C5. In every state, calling \<open>removeClient\<close> twice with the same identifier gives the
  state that one call gives, and with an identifier that is not in the client index the
  state is unchanged.
\<close>

theorem removeClient_idempotent:
  "removeClient cid (removeClient cid s) = removeClient cid s
   \<and> (Map_get (clients s) cid = None \<longrightarrow> removeClient cid s = s)"
proof (cases "Map_get (clients s) cid")
  case None
  then show ?thesis by (simp add: removeClient_unknown)
next
  case (Some r)
  have "Map_get (clients (removeClient cid s)) cid = None"
    by (simp add: removeClient_known [OF Some] Map_get_def delete_conv')
  then show ?thesis using Some by (simp add: removeClient_unknown)
qed

theorem removeClient_idempotent_witness:
  "removeClient ''client_1'' (removeClient ''client_1'' two_clients)
     = removeClient ''client_1'' two_clients
   \<and> removeClient ''client_9'' two_clients = two_clients
   \<and> getClientCount (removeClient ''client_1'' two_clients) = 1"
  using removeClient_idempotent [of "''client_1''" two_clients]
    removeClient_idempotent [of "''client_9''" two_clients]
  by (simp add: two_clients_value Map_get_def removeClient_def getClientCount_def js_defs)

subsection \<open>C6: registration adds one member and one client\<close>

text \<open>
  Claim C6, as amended. In every reachable state, after \<open>addClient\<close> with the room \<open>R\<close>
  the member count of \<open>R\<close> and the client count are each one greater than before; the
  member count of \<open>R\<close> is 1 when \<open>R\<close> had no entry before.
\<close>

theorem addClient_counts:
  assumes "reachable s"
  shows "getRoomClientCount R (snd (addClient ctrl R now s)) = getRoomClientCount R s + 1
    \<and> getClientCount (snd (addClient ctrl R now s)) = getClientCount s + 1
    \<and> (Map_get (rooms s) R = None \<longrightarrow> getRoomClientCount R (snd (addClient ctrl R now s)) = 1)"
proof -
  have inv: "registry_inv s" using assms by (rule reachable_inv)
  then have ids: "ids_issued s" and mem: "membership_consistent s"
    by (simp_all add: registry_inv_def)
  have room: "getRoomClientCount R (snd (addClient ctrl R now s)) = getRoomClientCount R s + 1"
    using fresh_id_not_member [OF ids mem, of R]
    by (simp add: getRoomClientCount_lookup addClient_lookup Set_add_def)
  have "getClientCount (snd (addClient ctrl R now s)) = getClientCount s + 1"
    using fresh_id [OF ids]
    by (simp add: getClientCount_def Map_size_def addClient_clients update_fresh)
  moreover have "getRoomClientCount R s = 0" if "Map_get (rooms s) R = None"
    using that by (simp add: getRoomClientCount_def)
  ultimately show ?thesis using room by simp
qed

theorem addClient_counts_witness:
  "reachable one_client
   \<and> getRoomClientCount ''s1:b1'' (snd (addClient 1 ''s1:b1'' 0 one_client)) = 2
   \<and> getClientCount (snd (addClient 1 ''s1:b1'' 0 one_client)) = 2
   \<and> getRoomClientCount ''s2:b2'' (snd (addClient 1 ''s2:b2'' 0 one_client)) = 1"
  using addClient_counts [OF reachable_one_client, of "''s1:b1''" 1 0]
    addClient_counts [OF reachable_one_client, of "''s2:b2''" 1 0] reachable_one_client
  by (simp add: one_client_value Map_get_def getRoomClientCount_def getClientCount_def
      Map_size_def Set_size_def)

text \<open>
  The claim as it was stated fails where the room already has a member: a second
  registration for \<open>s1:b1\<close> is followed by a member count of 2, not 1.
\<close>

theorem second_registration_counts_two:
  "getRoomClientCount ''s1:b1'' (snd (addClient 1 ''s1:b1'' 0 one_client)) = 2
   \<and> getRoomClientCount ''s1:b1'' (snd (addClient 1 ''s1:b1'' 0 one_client)) \<noteq> 1"
  using two_clients_value
  by (simp add: two_clients_def getRoomClientCount_def Map_get_def Set_size_def)

subsection \<open>C7: room names\<close>

text \<open>
  Claim C7, as amended. \<open>buildRoomName\<close> is a function of its two arguments, and two
  pairs give the same room name only if they are equal, provided the two shop
  identifiers contain no \<open>:\<close> or the two branch identifiers contain no \<open>:\<close>.
\<close>

theorem buildRoomName_injective:
  assumes "(CHR '':'' \<notin> set s1 \<and> CHR '':'' \<notin> set s2) \<or> (CHR '':'' \<notin> set b1 \<and> CHR '':'' \<notin> set b2)"
  shows "buildRoomName s1 b1 = buildRoomName s2 b2 \<longleftrightarrow> s1 = s2 \<and> b1 = b2"
proof
  assume eq: "buildRoomName s1 b1 = buildRoomName s2 b2"
  then have e: "s1 @ CHR '':'' # b1 = s2 @ CHR '':'' # b2" by (simp add: buildRoomName_def)
  from assms show "s1 = s2 \<and> b1 = b2"
  proof
    assume "CHR '':'' \<notin> set s1 \<and> CHR '':'' \<notin> set s2"
    with e show ?thesis by (intro sep_left_unique) auto
  next
    assume "CHR '':'' \<notin> set b1 \<and> CHR '':'' \<notin> set b2"
    with e show ?thesis by (intro sep_right_unique) auto
  qed
next
  assume "s1 = s2 \<and> b1 = b2"
  then show "buildRoomName s1 b1 = buildRoomName s2 b2" by simp
qed

theorem buildRoomName_injective_witness:
  "buildRoomName ''shop-1'' ''branch-1'' \<noteq> buildRoomName ''shop-2'' ''branch-1''
   \<and> buildRoomName ''shop-1'' ''branch-1'' = ''shop-1:branch-1''"
  using buildRoomName_injective [of "''shop-1''" "''shop-2''" "''branch-1''" "''branch-1''"]
  by (simp add: buildRoomName_def)

text \<open>
  Without that proviso two different pairs collide: \<open>a:b\<close>, \<open>c\<close> and \<open>a\<close>, \<open>b:c\<close> both
  give \<open>a:b:c\<close>.
\<close>

theorem buildRoomName_collision:
  "buildRoomName ''a:b'' ''c'' = buildRoomName ''a'' ''b:c'' \<and> ''a:b'' \<noteq> ''a''"
  by (simp add: buildRoomName_def)

subsection \<open>C8: no write after close\<close>

text \<open>
  Claim C8. Let the client object \<open>r\<close> be closed in the state \<open>s\<close>, and let \<open>s'\<close> be any
  later state. Then \<open>r\<close> is still closed in \<open>s'\<close>; \<open>sendEvent\<close> on \<open>r\<close> returns false and
  leaves the whole state, so every sink, as it is; the loop of \<open>broadcast\<close> does what it
  does on the member list without the identifiers of \<open>r\<close>, that is, it skips \<open>r\<close>; and
  when every registered client that writes to the sink of \<open>r\<close> is closed, a broadcast
  leaves that sink untouched.
\<close>

theorem no_write_after_close:
  assumes "r < length (heap s)" "closed (heap s ! r)" "later s s'"
  shows "closed (heap s' ! r)
    \<and> sendEvent r ev d s' = (False, s')
    \<and> broadcast_loop b members n s' =
        broadcast_loop b (filter (\<lambda>cid. Map_get (clients s') cid \<noteq> Some r) members) n s'
    \<and> (controller (heap s' ! r) < length (sinks s')
         \<and> (\<forall>cid r'. Map_get (clients s') cid = Some r'
               \<and> controller (heap s' ! r') = controller (heap s' ! r) \<longrightarrow> closed (heap s' ! r'))
       \<longrightarrow> sinks (snd (broadcast R p s')) ! controller (heap s' ! r)
           = sinks s' ! controller (heap s' ! r))"
proof -
  have c: "closed (heap s' ! r)" using later_closed [OF assms(3,1,2)] by simp
  have "fold (deliver b) members (n, s') =
      fold (deliver b) (filter (\<lambda>cid. Map_get (clients s') cid \<noteq> Some r) members) (n, s')"
    using loop_skip_closed [of "(n, s')" r b members] c by simp
  then have skip: "broadcast_loop b members n s' =
      broadcast_loop b (filter (\<lambda>cid. Map_get (clients s') cid \<noteq> Some r) members) n s'"
    by (simp add: broadcast_loop_fold)
  from c skip show ?thesis
    by (auto simp add: sendEvent_closed_noop intro!: broadcast_sink_untouched)
qed

theorem no_write_after_close_witness:
  "later (snd (sendEvent 1 ''connected'' null_payload three_clients))
     (run (Broadcast ''s1:b1'' null_payload) (snd (sendEvent 1 ''connected'' null_payload three_clients)))
   \<and> closed (heap (snd (sendEvent 1 ''connected'' null_payload three_clients)) ! 1)
   \<and> closed (heap (run (Broadcast ''s1:b1'' null_payload)
        (snd (sendEvent 1 ''connected'' null_payload three_clients))) ! 1)
   \<and> fst (sendEvent 1 ''connected'' null_payload (run (Broadcast ''s1:b1'' null_payload)
        (snd (sendEvent 1 ''connected'' null_payload three_clients)))) = False"
proof -
  let ?s = "snd (sendEvent 1 ''connected'' null_payload three_clients)"
  let ?s' = "run (Broadcast ''s1:b1'' null_payload) ?s"
  have r: "1 < length (heap ?s)"
    by (simp add: sendEvent_def writeSSE_registry three_clients_value)
  have c: "closed (heap ?s ! 1)"
    by (simp add: sendEvent_def writeSSE_closed three_clients_value shut_sink_def)
  have l: "later ?s ?s'"
    by (intro later.call later.now) simp
  from no_write_after_close [OF r c l, of "''connected''" null_payload "[]" "[]" 0 "''s1:b1''" null_payload]
  have "closed (heap ?s' ! 1)" and "sendEvent 1 ''connected'' null_payload ?s' = (False, ?s')"
    by simp_all
  with c l show ?thesis by simp
qed

subsection \<open>C9: the yielding broadcast\<close>

text \<open>
  Claim C9, as amended. For the same state, room and payload, the broadcast that awaits a
  timer after every 500th delivery returns the same count and the same state as the
  synchronous broadcast (the same closed flag for every client, the same queue for every
  sink), provided that no task runs while it is suspended, or that fewer than 500 members
  of the room are registered, open and writable, so that it is never suspended.
\<close>

theorem broadcast_yielding_undisturbed:
  assumes "(\<forall>tasks \<in> set sched. tasks = [])
    \<or> length (filter (live_member s) (lookupRoomMembers s R)) < BATCH"
  shows "broadcast_yielding sched R p s = broadcast R p s"
proof (cases "Map_get (rooms s) R")
  case None
  then show ?thesis by (simp add: broadcast_yielding_def broadcast_def)
next
  case (Some members)
  let ?b = "encode (sse_frame ''entity-event'' (JSON_stringify p))"
  have "broadcast_loop_yielding sched R ?b True members 0 s = broadcast_loop ?b members 0 s"
    using assms
  proof
    assume "\<forall>tasks \<in> set sched. tasks = []"
    then show ?thesis by (rule yielding_idle)
  next
    assume "length (filter (live_member s) (lookupRoomMembers s R)) < BATCH"
    then have "0 + length (filter (live_member s) members) < BATCH"
      using Some by (simp add: lookupRoomMembers_def)
    then show ?thesis by (rule yielding_short)
  qed
  with Some show ?thesis by (simp add: broadcast_yielding_def broadcast_def)
qed

theorem broadcast_yielding_undisturbed_witness:
  "fst (broadcast_yielding [[Call (RemoveClient ''client_1'')]] ''s1:b1'' null_payload
          three_clients) = 2
   \<and> closed (heap (snd (broadcast_yielding [[Call (RemoveClient ''client_1'')]] ''s1:b1''
          null_payload three_clients)) ! 1)"
proof -
  have "length (filter (live_member three_clients) (lookupRoomMembers three_clients ''s1:b1''))
      \<le> length (lookupRoomMembers three_clients ''s1:b1'')"
    by (rule length_filter_le)
  also have "\<dots> < BATCH"
    by (simp add: lookupRoomMembers_def three_clients_value Map_get_def BATCH_def)
  finally have "broadcast_yielding [[Call (RemoveClient ''client_1'')]] ''s1:b1'' null_payload
      three_clients = broadcast ''s1:b1'' null_payload three_clients"
    by (intro broadcast_yielding_undisturbed) simp
  then have "broadcast_yielding [[Call (RemoveClient ''client_1'')]] ''s1:b1'' null_payload
      three_clients =
      (2, three_clients
           \<lparr>heap := (heap three_clients)[1 := (heap three_clients ! 1)\<lparr>closed := True\<rparr>],
            sinks := [open_sink\<lparr>queue := [sse_frame ''entity-event'' ''null'']\<rparr>, shut_sink,
                      open_sink\<lparr>queue := [sse_frame ''entity-event'' ''null'']\<rparr>]\<rparr>)"
    by (simp only: broadcast_three_clients)
  then show ?thesis by (simp add: three_clients_value)
qed

text \<open>
  The claim as it was stated fails when another task runs during the suspension. A room
  has 501 members, all open and writable. The synchronous broadcast delivers to all 501.
  The yielding broadcast is suspended after the 500th delivery; the connection of the
  last member closes meanwhile and \<open>removeClient\<close> is called for it, so the loop does not
  visit it and the broadcast returns 500.
\<close>

theorem yielding_broadcast_differs:
  "reachable (crowd 501)
   \<and> fst (broadcast ''s1:b1'' null_payload (crowd 501)) = 501
   \<and> fst (broadcast_yielding [[Call (RemoveClient ''client_501'')]] ''s1:b1'' null_payload
           (crowd 501)) = 500"
proof -
  have batch: "Suc 499 = BATCH" by (simp add: BATCH_def)
  have size: "Suc (Suc 499) \<le> (501 :: nat)" by simp
  have ident: "crowd_id (Suc 499) = ''client_501''"
    by (simp add: crowd_id_def decimal_501)
  have "fst (broadcast_yielding [[Call (RemoveClient (crowd_id (Suc 499)))]] ''s1:b1''
      null_payload (crowd (Suc (Suc 499)))) = Suc 499"
    using batch size by (rule crowd_yielding)
  then have yielding: "fst (broadcast_yielding [[Call (RemoveClient ''client_501'')]] ''s1:b1''
      null_payload (crowd 501)) = 500"
    by (simp only: ident) simp
  have sync: "fst (broadcast ''s1:b1'' null_payload (crowd 501)) = 501"
    by (rule crowd_sync) simp_all
  have "reachable (crowd 501)" by (rule reachable_crowd) simp
  with sync yielding show ?thesis by simp
qed

subsection \<open>C10: broadcast and sendEvent leave the membership alone\<close>

text \<open>
  Claim C10. In every state, \<open>broadcast\<close> and \<open>sendEvent\<close> leave the client index and the
  room index as they are, so the client count and every room's member count are
  unchanged; a client whose write failed is closed afterwards and is still in both
  indices.
\<close>

theorem broadcast_sendEvent_frame:
  "clients (snd (broadcast R p s)) = clients s \<and> rooms (snd (broadcast R p s)) = rooms s
   \<and> clients (snd (sendEvent r ev d s)) = clients s \<and> rooms (snd (sendEvent r ev d s)) = rooms s
   \<and> getClientCount (snd (broadcast R p s)) = getClientCount s
   \<and> getClientCount (snd (sendEvent r ev d s)) = getClientCount s
   \<and> getRoomClientCount K (snd (broadcast R p s)) = getRoomClientCount K s
   \<and> getRoomClientCount K (snd (sendEvent r ev d s)) = getRoomClientCount K s
   \<and> (r < length (heap s) \<and> \<not> readable (sinks s ! controller (heap s ! r))
       \<longrightarrow> \<not> fst (sendEvent r ev d s) \<and> closed (heap (snd (sendEvent r ev d s)) ! r))"
  by (auto simp add: broadcast_registry sendEvent_def writeSSE_registry getClientCount_def
      getRoomClientCount_def writeSSE_closed writeSSE_def Let_def enqueue_def)

theorem broadcast_sendEvent_frame_witness:
  "\<not> fst (sendEvent 1 ''connected'' null_payload three_clients)
   \<and> closed (heap (snd (sendEvent 1 ''connected'' null_payload three_clients)) ! 1)
   \<and> getClientCount (snd (sendEvent 1 ''connected'' null_payload three_clients)) = 3
   \<and> getRoomClientCount ''s1:b1'' (snd (sendEvent 1 ''connected'' null_payload three_clients)) = 3
   \<and> getClientCount (snd (broadcast ''s1:b1'' null_payload three_clients)) = 3"
  using broadcast_sendEvent_frame [of "''s1:b1''" null_payload three_clients 1 "''connected''" null_payload
      "''s1:b1''"]
  by (simp add: three_clients_value shut_sink_def getClientCount_def getRoomClientCount_def
      Map_get_def Map_size_def Set_size_def)

end
